theory Spec2Isabelle
  imports Main "HOL-Library.Sublist"
begin

section \<open>The log-buffering facade of \<open>internal/config/logger\<close>\<close>

text \<open>
  The package keeps two globals, a buffered channel \<open>queue\<close> of capacity 100 and an
  atomic flag \<open>queueClosed\<close>. Before \<open>MarkInitialized\<close> every \<open>Log*\<close> call tries a
  non-blocking send on the channel; afterwards it writes through zerolog. The records
  buffered before the transition are forwarded by a goroutine running \<open>processQueue\<close>.

  The model has two layers over the same primitives. The first layer reads each Go
  function as a function on the package state, a call running without interruption.
  The second layer splits every call at its accesses to shared state and lets a
  schedule pick the goroutine that moves next.
\<close>

subsection \<open>Data\<close>

text \<open>\<open>type logOperation struct { level string; message string }\<close>\<close>

record logOperation =
  level :: string
  message :: string

text \<open>
  A Go channel of \<open>logOperation\<close>: the buffered elements, oldest first, the capacity
  given to \<open>make\<close>, and whether \<open>close\<close> has been called on it.
\<close>

record chan =
  ch_buf :: "logOperation list"
  ch_cap :: nat
  ch_closed :: bool

text \<open>The seven levels of zerolog that \<open>sublogWrapper\<close> selects from.\<close>

datatype zlevel =
  TraceLevel | DebugLevel | InfoLevel | WarnLevel | ErrorLevel | FatalLevel | PanicLevel

text \<open>
  What has become of the process: still running, ended by \<open>os.Exit\<close>, or brought down
  by a panic that carries a message. The package recovers from no panic, and a panic
  that is not recovered ends a Go program, so a panic is final here.
\<close>

datatype status = Running | Exited | Panicked string

text \<open>
  A goroutine started by \<open>go processQueue()\<close> is either at the head of its \<open>range\<close>
  loop, or inside the loop body holding the element it received, or it has returned.
\<close>

datatype goroutine = AtRange | AtBody logOperation | Finished

text \<open>
  The state of the package: the two globals, what has been handed to zerolog so far (the
  level chosen and the message, in the order of the calls to \<open>Msg\<close>), the goroutines
  started by \<open>go processQueue()\<close>, and the status of the process.
\<close>

record logger =
  queue :: chan
  queueClosed :: bool
  sink :: "(zlevel \<times> string) list"
  drainers :: "goroutine list"
  status :: status

subsection \<open>Channel operations\<close>

definition make_chan :: "nat \<Rightarrow> chan" where
  "make_chan n = \<lparr>ch_buf = [], ch_cap = n, ch_closed = False\<rparr>"

text \<open>
  \<open>select { case queue <- op: default: }\<close>. A send on a closed channel panics, also
  inside a \<open>select\<close>; otherwise the send is taken when the buffer has room and the
  \<open>default\<close> branch is taken when it has none.
\<close>

datatype send_result = Sent chan | Full | SendOnClosed

definition try_send :: "logOperation \<Rightarrow> chan \<Rightarrow> send_result" where
  "try_send x q =
     (if ch_closed q then SendOnClosed
      else if length (ch_buf q) < ch_cap q then Sent (q\<lparr>ch_buf := ch_buf q @ [x]\<rparr>)
      else Full)"

text \<open>\<open>close(queue)\<close>: closing a closed channel panics, which is \<open>None\<close> here.\<close>

definition close_chan :: "chan \<Rightarrow> chan option" where
  "close_chan q = (if ch_closed q then None else Some (q\<lparr>ch_closed := True\<rparr>))"

text \<open>
  One receive of \<open>for op := range queue\<close>: the oldest buffered element if there is one,
  the end of the loop if the channel is empty and closed, and no progress while it is
  empty and open.
\<close>

datatype recv_result = Got logOperation chan | EndOfRange | WouldBlock

definition recv :: "chan \<Rightarrow> recv_result" where
  "recv q =
     (case ch_buf q of
        x # rest \<Rightarrow> Got x (q\<lparr>ch_buf := rest\<rparr>)
      | [] \<Rightarrow> if ch_closed q then EndOfRange else WouldBlock)"

subsection \<open>Writing through zerolog\<close>

text \<open>
  Modelled from the spec: zerolog's \<open>Event.Msg\<close> is a dependency and not part of the
  sources. The record is handed to the sink; at fatal level the process is then ended
  with \<open>os.Exit(1)\<close>, at panic level \<open>panic(message)\<close> is raised, as the specification
  says of Fatal and Panic ("terminate the process / unwind the call stack after the
  record is handed to the sink path"). The sink of the model is what is handed to
  zerolog, before its level filter and its writers.
\<close>

definition Msg :: "zlevel \<Rightarrow> string \<Rightarrow> logger \<Rightarrow> logger" where
  "Msg z m s =
     (let s' = s\<lparr>sink := sink s @ [(z, m)]\<rparr>
      in if z = FatalLevel then s'\<lparr>status := Exited\<rparr>
         else if z = PanicLevel then s'\<lparr>status := Panicked m\<rparr>
         else s')"

text \<open>The \<open>switch level\<close> of \<open>sublogWrapper\<close>, in the order of its cases.\<close>

definition sublogWrapper :: "string \<Rightarrow> string \<Rightarrow> logger \<Rightarrow> logger" where
  "sublogWrapper lvl msg s =
     (if lvl = ''debug'' then Msg DebugLevel msg s
      else if lvl = ''info'' then Msg InfoLevel msg s
      else if lvl = ''warn'' then Msg WarnLevel msg s
      else if lvl = ''error'' then Msg ErrorLevel msg s
      else if lvl = ''fatal'' then Msg FatalLevel msg s
      else if lvl = ''panic'' then Msg PanicLevel msg s
      else if lvl = ''trace'' then Msg TraceLevel msg s
      else Msg InfoLevel msg s)"

subsection \<open>The facade, each call running without interruption\<close>

text \<open>
  \<open>fmt.Sprintf\<close> belongs to the Go library; it is the parameter \<open>Sprintf\<close> of every
  function that formats, a function of the template and the arguments.
\<close>

definition logWrapper ::
  "(string \<Rightarrow> 'a list \<Rightarrow> string) \<Rightarrow> string \<Rightarrow> string \<Rightarrow> 'a list \<Rightarrow> logger \<Rightarrow> logger" where
  "logWrapper Sprintf lvl format args s =
     (let msg = Sprintf format args
      in if \<not> queueClosed s then
           (case try_send \<lparr>level = lvl, message = msg\<rparr> (queue s) of
              Sent q \<Rightarrow> s\<lparr>queue := q\<rparr>
            | Full \<Rightarrow> s
            | SendOnClosed \<Rightarrow> s\<lparr>status := Panicked ''send on closed channel''\<rparr>)
         else sublogWrapper lvl msg s)"

definition LogTrace :: "(string \<Rightarrow> 'a list \<Rightarrow> string) \<Rightarrow> string \<Rightarrow> 'a list \<Rightarrow> logger \<Rightarrow> logger" where
  "LogTrace Sprintf format args s = logWrapper Sprintf ''trace'' format args s"

definition LogDebug :: "(string \<Rightarrow> 'a list \<Rightarrow> string) \<Rightarrow> string \<Rightarrow> 'a list \<Rightarrow> logger \<Rightarrow> logger" where
  "LogDebug Sprintf format args s = logWrapper Sprintf ''debug'' format args s"

definition LogInfo :: "(string \<Rightarrow> 'a list \<Rightarrow> string) \<Rightarrow> string \<Rightarrow> 'a list \<Rightarrow> logger \<Rightarrow> logger" where
  "LogInfo Sprintf format args s = logWrapper Sprintf ''info'' format args s"

definition LogWarn :: "(string \<Rightarrow> 'a list \<Rightarrow> string) \<Rightarrow> string \<Rightarrow> 'a list \<Rightarrow> logger \<Rightarrow> logger" where
  "LogWarn Sprintf format args s = logWrapper Sprintf ''warn'' format args s"

definition LogError :: "(string \<Rightarrow> 'a list \<Rightarrow> string) \<Rightarrow> string \<Rightarrow> 'a list \<Rightarrow> logger \<Rightarrow> logger" where
  "LogError Sprintf format args s = logWrapper Sprintf ''error'' format args s"

definition LogFatal :: "(string \<Rightarrow> 'a list \<Rightarrow> string) \<Rightarrow> string \<Rightarrow> 'a list \<Rightarrow> logger \<Rightarrow> logger" where
  "LogFatal Sprintf format args s = logWrapper Sprintf ''fatal'' format args s"

definition LogPanic :: "(string \<Rightarrow> 'a list \<Rightarrow> string) \<Rightarrow> string \<Rightarrow> 'a list \<Rightarrow> logger \<Rightarrow> logger" where
  "LogPanic Sprintf format args s = logWrapper Sprintf ''panic'' format args s"

text \<open>
  \<open>MarkInitialized\<close>: under the guard the flag is stored, the channel is closed (a
  panic if it is closed already, and then nothing after it runs) and the goroutine is
  started; the call to \<open>LogInfo\<close> stands after the \<open>if\<close>.
\<close>

definition MarkInitialized :: "(string \<Rightarrow> 'a list \<Rightarrow> string) \<Rightarrow> logger \<Rightarrow> logger" where
  "MarkInitialized Sprintf s =
     (let s1 =
        (if \<not> queueClosed s then
           (let s' = s\<lparr>queueClosed := True\<rparr>
            in case close_chan (queue s') of
                 None \<Rightarrow> s'\<lparr>status := Panicked ''close of closed channel''\<rparr>
               | Some q \<Rightarrow> s'\<lparr>queue := q, drainers := drainers s' @ [AtRange]\<rparr>)
         else s)
      in if status s1 = Running then LogInfo Sprintf ''Logger initialized'' [] s1 else s1)"

text \<open>\<open>func init() { queue = make(chan logOperation, 100) }\<close>; the flag starts false.\<close>

definition init :: logger where
  "init = \<lparr>queue = make_chan 100, queueClosed = False, sink = [], drainers = [],
           status = Running\<rparr>"

text \<open>
  \<open>processQueue\<close> run from the head of its loop with no other goroutine moving: every
  buffered element is forwarded in turn. The loop stops when the process ends under it.
  It never returns (\<open>None\<close>) when it finds the channel empty and open, since nobody
  else moves to send or to close.
\<close>

function processQueue :: "logger \<Rightarrow> logger option" where
  "processQueue s =
     (case recv (queue s) of
        Got x q \<Rightarrow>
          (let s' = sublogWrapper (level x) (message x) (s\<lparr>queue := q\<rparr>)
           in if status s' = Running then processQueue s' else Some s')
      | EndOfRange \<Rightarrow> Some s
      | WouldBlock \<Rightarrow> None)"
  by pat_completeness auto
termination
  by (relation "measure (\<lambda>s. length (ch_buf (queue s)))")
     (auto simp: recv_def sublogWrapper_def Msg_def Let_def split: list.splits if_splits)

declare processQueue.simps [simp del]

text \<open>
  A caller's program is a list of calls to the facade: \<open>Log lvl format args\<close> is
  \<open>logWrapper(lvl, format, args...)\<close>, which the seven \<open>Log*\<close> functions are with
  their own level, and \<open>MarkInit\<close> is \<open>MarkInitialized()\<close>.
\<close>

datatype 'a call = Log string string "'a list" | MarkInit

fun do_call :: "(string \<Rightarrow> 'a list \<Rightarrow> string) \<Rightarrow> 'a call \<Rightarrow> logger \<Rightarrow> logger" where
  "do_call Sprintf (Log lvl format args) s = logWrapper Sprintf lvl format args s"
| "do_call Sprintf MarkInit s = MarkInitialized Sprintf s"

text \<open>Calls made one after the other by one goroutine; a dead process makes no call.\<close>

fun run_calls :: "(string \<Rightarrow> 'a list \<Rightarrow> string) \<Rightarrow> 'a call list \<Rightarrow> logger \<Rightarrow> logger" where
  "run_calls Sprintf [] s = s"
| "run_calls Sprintf (c # cs) s =
     (if status s = Running then run_calls Sprintf cs (do_call Sprintf c s) else s)"

text \<open>The record a \<open>Log\<close> call builds, and the entry the sink receives for a record.\<close>

fun record_of :: "(string \<Rightarrow> 'a list \<Rightarrow> string) \<Rightarrow> string \<times> string \<times> 'a list \<Rightarrow> logOperation" where
  "record_of Sprintf (lvl, format, args) = \<lparr>level = lvl, message = Sprintf format args\<rparr>"

fun log_call :: "string \<times> string \<times> 'a list \<Rightarrow> 'a call" where
  "log_call (lvl, format, args) = Log lvl format args"

text \<open>The level at which \<open>sublogWrapper\<close> writes, read off \<open>sublogWrapper\<close> itself.\<close>

definition chosen :: "string \<Rightarrow> zlevel" where
  "chosen lvl = fst (last (sink (sublogWrapper lvl [] init)))"

definition entry :: "logOperation \<Rightarrow> zlevel \<times> string" where
  "entry x = (chosen (level x), message x)"

definition ends_process :: "logOperation \<Rightarrow> bool" where
  "ends_process x \<longleftrightarrow> chosen (level x) = FatalLevel \<or> chosen (level x) = PanicLevel"

text \<open>
  A template without verbs and without arguments is its own rendering; this formatter
  serves the concrete runs below.
\<close>

definition plain :: "string \<Rightarrow> unit list \<Rightarrow> string" where
  "plain format args = format"

subsection \<open>The facade, goroutines interleaved\<close>

text \<open>
  Where a calling goroutine stands. \<open>Ready\<close> is between two calls. Inside
  \<open>logWrapper\<close> the message has been formatted and the goroutine is before the load of
  the flag (line 16), before the \<open>select\<close> (line 17) or before \<open>sublogWrapper\<close>
  (line 26). Inside \<open>MarkInitialized\<close> it has seen the flag false and is before the
  store (line 90), before \<open>close\<close> (line 91) or before the \<open>go\<close> statement (line 92),
  or it is before the call to \<open>LogInfo\<close> (line 94).
\<close>

datatype frame =
    Ready
  | LW_Load string string
  | LW_Send string string
  | LW_Sub string string
  | MI_Store
  | MI_Close
  | MI_Go
  | MI_LogInfo

record 'a caller =
  frame :: frame
  todo :: "'a call list"

record 'a config =
  shared :: logger
  callers :: "'a caller list"

datatype tid = Caller nat | Drainer nat

text \<open>What one move of a goroutine did.\<close>

datatype event =
    Formatted tid string string
  | Loaded tid bool
  | Enqueued tid logOperation
  | Dropped tid logOperation
  | Wrote tid logOperation
  | Stored tid
  | Closed tid
  | Started tid
  | Received tid logOperation
  | Returned tid
  | PanickedAt tid string

text \<open>
  One move of caller \<open>i\<close>: the code up to and including its next access to the flag,
  the channel or the sink. The accesses themselves are indivisible: the flag is an
  \<open>atomic.Bool\<close>, the channel operations are synchronised by the Go runtime, and a
  call into zerolog is taken as one write. \<open>None\<close> when the caller does not exist or
  has no call left.
\<close>

definition caller_step ::
  "(string \<Rightarrow> 'a list \<Rightarrow> string) \<Rightarrow> nat \<Rightarrow> 'a config \<Rightarrow> (event \<times> 'a config) option" where
  "caller_step Sprintf i c =
     (if length (callers c) \<le> i then None
      else
        let t = callers c ! i;
            s = shared c;
            go = (\<lambda>fr s'. c\<lparr>shared := s', callers := (callers c)[i := t\<lparr>frame := fr\<rparr>]\<rparr>)
        in case frame t of
             Ready \<Rightarrow>
               (case todo t of
                  [] \<Rightarrow> None
                | Log lvl format args # rest \<Rightarrow>
                    Some (Formatted (Caller i) lvl (Sprintf format args),
                          c\<lparr>callers := (callers c)
                               [i := \<lparr>frame = LW_Load lvl (Sprintf format args), todo = rest\<rparr>]\<rparr>)
                | MarkInit # rest \<Rightarrow>
                    Some (Loaded (Caller i) (queueClosed s),
                          c\<lparr>callers := (callers c)
                               [i := \<lparr>frame = (if \<not> queueClosed s then MI_Store else MI_LogInfo),
                                      todo = rest\<rparr>]\<rparr>))
           | LW_Load lvl msg \<Rightarrow>
               Some (Loaded (Caller i) (queueClosed s),
                     go (if \<not> queueClosed s then LW_Send lvl msg else LW_Sub lvl msg) s)
           | LW_Send lvl msg \<Rightarrow>
               (case try_send \<lparr>level = lvl, message = msg\<rparr> (queue s) of
                  Sent q \<Rightarrow>
                    Some (Enqueued (Caller i) \<lparr>level = lvl, message = msg\<rparr>,
                          go Ready (s\<lparr>queue := q\<rparr>))
                | Full \<Rightarrow> Some (Dropped (Caller i) \<lparr>level = lvl, message = msg\<rparr>, go Ready s)
                | SendOnClosed \<Rightarrow>
                    Some (PanickedAt (Caller i) ''send on closed channel'',
                          c\<lparr>shared := s\<lparr>status := Panicked ''send on closed channel''\<rparr>\<rparr>))
           | LW_Sub lvl msg \<Rightarrow>
               Some (Wrote (Caller i) \<lparr>level = lvl, message = msg\<rparr>,
                     go Ready (sublogWrapper lvl msg s))
           | MI_Store \<Rightarrow> Some (Stored (Caller i), go MI_Close (s\<lparr>queueClosed := True\<rparr>))
           | MI_Close \<Rightarrow>
               (case close_chan (queue s) of
                  None \<Rightarrow>
                    Some (PanickedAt (Caller i) ''close of closed channel'',
                          c\<lparr>shared := s\<lparr>status := Panicked ''close of closed channel''\<rparr>\<rparr>)
                | Some q \<Rightarrow> Some (Closed (Caller i), go MI_Go (s\<lparr>queue := q\<rparr>)))
           | MI_Go \<Rightarrow>
               Some (Started (Caller i), go MI_LogInfo (s\<lparr>drainers := drainers s @ [AtRange]\<rparr>))
           | MI_LogInfo \<Rightarrow>
               Some (Formatted (Caller i) ''info'' (Sprintf ''Logger initialized'' []),
                     go (LW_Load ''info'' (Sprintf ''Logger initialized'' [])) s))"

text \<open>
  One move of the \<open>j\<close>-th goroutine running \<open>processQueue\<close>: a receive at the head of
  the loop, or the call of \<open>sublogWrapper\<close> in its body. \<open>None\<close> when there is no such
  goroutine, when it has returned, or while it waits on the empty open channel.
\<close>

definition drainer_step :: "nat \<Rightarrow> 'a config \<Rightarrow> (event \<times> 'a config) option" where
  "drainer_step j c =
     (let s = shared c
      in if length (drainers s) \<le> j then None
         else case drainers s ! j of
                AtRange \<Rightarrow>
                  (case recv (queue s) of
                     Got x q \<Rightarrow>
                       Some (Received (Drainer j) x,
                             c\<lparr>shared := s\<lparr>queue := q, drainers := (drainers s)[j := AtBody x]\<rparr>\<rparr>)
                   | EndOfRange \<Rightarrow>
                       Some (Returned (Drainer j),
                             c\<lparr>shared := s\<lparr>drainers := (drainers s)[j := Finished]\<rparr>\<rparr>)
                   | WouldBlock \<Rightarrow> None)
              | AtBody x \<Rightarrow>
                  Some (Wrote (Drainer j) x,
                        c\<lparr>shared := (sublogWrapper (level x) (message x) s)
                                     \<lparr>drainers := (drainers s)[j := AtRange]\<rparr>\<rparr>)
              | Finished \<Rightarrow> None)"

text \<open>No goroutine moves once the process has exited or panicked.\<close>

definition step ::
  "(string \<Rightarrow> 'a list \<Rightarrow> string) \<Rightarrow> tid \<Rightarrow> 'a config \<Rightarrow> (event \<times> 'a config) option" where
  "step Sprintf t c =
     (if status (shared c) \<noteq> Running then None
      else case t of Caller i \<Rightarrow> caller_step Sprintf i c | Drainer j \<Rightarrow> drainer_step j c)"

text \<open>
  A schedule names the goroutine to move next; a goroutine that cannot move is passed
  over. Running a schedule yields the events in the order they happened and the
  configuration reached.
\<close>

definition move ::
  "(string \<Rightarrow> 'a list \<Rightarrow> string) \<Rightarrow> event list \<times> 'a config \<Rightarrow> tid \<Rightarrow> event list \<times> 'a config" where
  "move Sprintf p t =
     (case step Sprintf t (snd p) of
        None \<Rightarrow> p
      | Some (e, c') \<Rightarrow> (fst p @ [e], c'))"

definition exec ::
  "(string \<Rightarrow> 'a list \<Rightarrow> string) \<Rightarrow> tid list \<Rightarrow> 'a config \<Rightarrow> event list \<times> 'a config" where
  "exec Sprintf sched c = foldl (move Sprintf) ([], c) sched"

text \<open>Every caller ready to begin its program, over a given state of the package.\<close>

definition start :: "logger \<Rightarrow> 'a call list list \<Rightarrow> 'a config" where
  "start s progs = \<lparr>shared = s, callers = map (\<lambda>p. \<lparr>frame = Ready, todo = p\<rparr>) progs\<rparr>"

text \<open>Projections of a trace: the records sent, and those written, by whom.\<close>

fun enq_of :: "event \<Rightarrow> logOperation list" where
  "enq_of (Enqueued t x) = [x]"
| "enq_of e = []"

fun drained_of :: "event \<Rightarrow> logOperation list" where
  "drained_of (Wrote (Drainer j) x) = [x]"
| "drained_of e = []"

fun wrote_of :: "event \<Rightarrow> logOperation list" where
  "wrote_of (Wrote t x) = [x]"
| "wrote_of e = []"

fun closed_of :: "event \<Rightarrow> tid list" where
  "closed_of (Closed t) = [t]"
| "closed_of e = []"

definition enqueued :: "event list \<Rightarrow> logOperation list" where
  "enqueued tr = concat (map enq_of tr)"

definition drained :: "event list \<Rightarrow> logOperation list" where
  "drained tr = concat (map drained_of tr)"

definition written :: "event list \<Rightarrow> logOperation list" where
  "written tr = concat (map wrote_of tr)"

definition closes :: "event list \<Rightarrow> tid list" where
  "closes tr = concat (map closed_of tr)"

text \<open>The elements that goroutines running \<open>processQueue\<close> hold between receive and write.\<close>

fun held :: "goroutine \<Rightarrow> logOperation list" where
  "held (AtBody x) = [x]"
| "held g = []"

definition in_flight :: "logger \<Rightarrow> logOperation list" where
  "in_flight s = concat (map held (drainers s))"

subsection \<open>Quantities the invariants speak of\<close>

text \<open>The callers that have closed the channel and not yet started the goroutine.\<close>

definition at_go :: "'a config \<Rightarrow> nat" where
  "at_go c = length (filter (\<lambda>t. frame t = MI_Go) (callers c))"

text \<open>
  The records on their way to the sink through the channel: those held by goroutines
  running \<open>processQueue\<close>, then those still buffered.
\<close>

definition pending :: "'a config \<Rightarrow> logOperation list" where
  "pending c = in_flight (shared c) @ ch_buf (queue (shared c))"

text \<open>
  What holds of every run from a state \<open>s0\<close> with an open channel and no goroutine
  started: the accounting of the records sent, the accounting of the sink, and the
  count of goroutines against the closes of the channel.
\<close>

definition fifo_inv :: "logger \<Rightarrow> event list \<Rightarrow> 'a config \<Rightarrow> bool" where
  "fifo_inv s0 tr c \<longleftrightarrow>
     drained tr @ pending c = ch_buf (queue s0) @ enqueued tr \<and>
     sink (shared c) = sink s0 @ map entry (written tr) \<and>
     length (drainers (shared c)) + at_go c = length (closes tr) \<and>
     length (closes tr) = (if ch_closed (queue (shared c)) then 1 else 0)"

text \<open>What holds of the flag and of the channel between two configurations of a run.\<close>

definition flags_inv :: "'a config \<Rightarrow> event list \<Rightarrow> 'a config \<Rightarrow> bool" where
  "flags_inv c0 tr c \<longleftrightarrow>
     (queueClosed (shared c0) \<longrightarrow> queueClosed (shared c)) \<and>
     (ch_closed (queue (shared c0)) \<longrightarrow> ch_closed (queue (shared c))) \<and>
     length (closes tr) =
       (if ch_closed (queue (shared c)) \<and> \<not> ch_closed (queue (shared c0)) then 1 else 0)"

text \<open>
  A single caller that begins with \<open>MarkInitialized\<close>: it is never about to send, and
  it is past the store of the flag unless it has not yet got there; and a goroutine
  that has returned has left the channel empty.
\<close>

definition sole_initializer :: "'a config \<Rightarrow> bool" where
  "sole_initializer c \<longleftrightarrow>
     (\<exists>t. callers c = [t] \<and> (\<forall>l m. frame t \<noteq> LW_Send l m) \<and>
          (queueClosed (shared c) \<or> frame t = MI_Store \<or>
           (frame t = Ready \<and> (\<exists>r. todo t = MarkInit # r)))) \<and>
     (Finished \<in> set (drainers (shared c)) \<longrightarrow> ch_buf (queue (shared c)) = [])"

text \<open>
  The three ways a call can dispose of its record, as events of caller \<open>k\<close>, and the
  calls a caller has not yet completed: those it has not begun and the one it is in.
\<close>

fun is_outcome :: "nat \<Rightarrow> event \<Rightarrow> bool" where
  "is_outcome k (Enqueued t x) = (t = Caller k)"
| "is_outcome k (Dropped t x) = (t = Caller k)"
| "is_outcome k (Wrote t x) = (t = Caller k)"
| "is_outcome k e = False"

definition outcomes :: "nat \<Rightarrow> event list \<Rightarrow> event list" where
  "outcomes k tr = filter (is_outcome k) tr"

definition calls_left :: "'a caller \<Rightarrow> nat" where
  "calls_left t = length (todo t) + (if frame t = Ready then 0 else 1)"

text \<open>
  The panics raised by the channel along a run, and what holds of a configuration with
  one caller: it is before a send, a store or a close only while the channel is open.
\<close>

fun panic_of :: "event \<Rightarrow> string list" where
  "panic_of (PanickedAt t m) = [m]"
| "panic_of e = []"

definition panics :: "event list \<Rightarrow> string list" where
  "panics tr = concat (map panic_of tr)"

definition one_caller :: "'a config \<Rightarrow> bool" where
  "one_caller c \<longleftrightarrow>
     (\<exists>t. callers c = [t] \<and>
          ((\<exists>l m. frame t = LW_Send l m) \<or> frame t = MI_Store \<or> frame t = MI_Close
             \<longrightarrow> \<not> ch_closed (queue (shared c))) \<and>
          (frame t = MI_Close \<longrightarrow> queueClosed (shared c))) \<and>
     (ch_closed (queue (shared c)) \<longrightarrow> queueClosed (shared c))"

text \<open>The store of the flag comes before the close of the channel.\<close>

definition flag_before_close :: "'a config \<Rightarrow> bool" where
  "flag_before_close c \<longleftrightarrow>
     (ch_closed (queue (shared c)) \<longrightarrow> queueClosed (shared c)) \<and>
     (\<forall>t\<in>set (callers c). frame t = MI_Close \<longrightarrow> queueClosed (shared c))"

section \<open>Calls running without interruption\<close>

subsection \<open>What each function computes\<close>

lemma sublogWrapper_Msg: "sublogWrapper lvl msg s = Msg (chosen lvl) msg s"
  by (simp add: chosen_def sublogWrapper_def Msg_def init_def Let_def)

lemma chosen_levels:
  "chosen ''trace'' = TraceLevel" "chosen ''debug'' = DebugLevel" "chosen ''info'' = InfoLevel"
  "chosen ''warn'' = WarnLevel" "chosen ''error'' = ErrorLevel" "chosen ''fatal'' = FatalLevel"
  "chosen ''panic'' = PanicLevel"
  by (simp_all add: chosen_def sublogWrapper_def Msg_def init_def Let_def)

lemma Msg_plain:
  "z \<noteq> FatalLevel \<Longrightarrow> z \<noteq> PanicLevel \<Longrightarrow> Msg z m s = s\<lparr>sink := sink s @ [(z, m)]\<rparr>"
  by (simp add: Msg_def Let_def)

lemma Msg_fields:
  "queue (Msg z m s) = queue s" "queueClosed (Msg z m s) = queueClosed s"
  "drainers (Msg z m s) = drainers s" "sink (Msg z m s) = sink s @ [(z, m)]"
  by (simp_all add: Msg_def Let_def)

lemma logWrapper_direct:
  "queueClosed s \<Longrightarrow> logWrapper Sprintf lvl format args s = Msg (chosen lvl) (Sprintf format args) s"
  by (simp add: logWrapper_def sublogWrapper_Msg)

lemma logWrapper_buffering:
  "\<not> queueClosed s \<Longrightarrow> \<not> ch_closed (queue s) \<Longrightarrow>
   logWrapper Sprintf lvl format args s =
     (if length (ch_buf (queue s)) < ch_cap (queue s)
      then s\<lparr>queue := (queue s)\<lparr>ch_buf := ch_buf (queue s) @ [\<lparr>level = lvl, message = Sprintf format args\<rparr>]\<rparr>\<rparr>
      else s)"
  by (simp add: logWrapper_def try_send_def)

lemma run_calls_buffering:
  "\<not> queueClosed s \<Longrightarrow> \<not> ch_closed (queue s) \<Longrightarrow> status s = Running \<Longrightarrow>
   run_calls Sprintf (map log_call recs) s =
     s\<lparr>queue := (queue s)\<lparr>ch_buf := ch_buf (queue s) @
          take (ch_cap (queue s) - length (ch_buf (queue s))) (map (record_of Sprintf) recs)\<rparr>\<rparr>"
proof (induction recs arbitrary: s)
  case Nil
  then show ?case by simp
next
  case (Cons r recs)
  obtain lvl format args where r: "r = (lvl, format, args)" by (cases r)
  show ?case
  proof (cases "length (ch_buf (queue s)) < ch_cap (queue s)")
    case True
    let ?s' = "s\<lparr>queue := (queue s)\<lparr>ch_buf := ch_buf (queue s) @ [\<lparr>level = lvl, message = Sprintf format args\<rparr>]\<rparr>\<rparr>"
    have "run_calls Sprintf (map log_call (r # recs)) s = run_calls Sprintf (map log_call recs) ?s'"
      using Cons.prems True by (simp add: r logWrapper_buffering)
    also have "\<dots> = ?s'\<lparr>queue := (queue ?s')\<lparr>ch_buf := ch_buf (queue ?s') @
          take (ch_cap (queue ?s') - length (ch_buf (queue ?s'))) (map (record_of Sprintf) recs)\<rparr>\<rparr>"
      using Cons.prems by (intro Cons.IH) simp_all
    also have "\<dots> = s\<lparr>queue := (queue s)\<lparr>ch_buf := ch_buf (queue s) @
          take (ch_cap (queue s) - length (ch_buf (queue s))) (map (record_of Sprintf) (r # recs))\<rparr>\<rparr>"
      using True by (simp add: r take_Cons' )
    finally show ?thesis .
  next
    case False
    have "run_calls Sprintf (map log_call (r # recs)) s = run_calls Sprintf (map log_call recs) s"
      using Cons.prems False by (simp add: r logWrapper_buffering)
    also have "\<dots> = s\<lparr>queue := (queue s)\<lparr>ch_buf := ch_buf (queue s) @
          take (ch_cap (queue s) - length (ch_buf (queue s))) (map (record_of Sprintf) recs)\<rparr>\<rparr>"
      using Cons.prems by (intro Cons.IH) simp_all
    finally show ?thesis using False by simp
  qed
qed

lemma run_calls_init:
  "run_calls Sprintf (map log_call recs) init =
     init\<lparr>queue := \<lparr>ch_buf = take 100 (map (record_of Sprintf) recs), ch_cap = 100, ch_closed = False\<rparr>\<rparr>"
proof -
  have "run_calls Sprintf (map log_call recs) init =
     init\<lparr>queue := (queue init)\<lparr>ch_buf := ch_buf (queue init) @
          take (ch_cap (queue init) - length (ch_buf (queue init))) (map (record_of Sprintf) recs)\<rparr>\<rparr>"
    by (rule run_calls_buffering) (simp_all add: init_def make_chan_def)
  then show ?thesis by (simp add: init_def make_chan_def)
qed

lemma processQueue_Nil:
  "ch_buf (queue s) = [] \<Longrightarrow> ch_closed (queue s) \<Longrightarrow> processQueue s = Some s"
  by (simp add: processQueue.simps [of s] recv_def)

lemma processQueue_Cons:
  "ch_buf (queue s) = x # rest \<Longrightarrow>
   processQueue s =
     (let s' = Msg (chosen (level x)) (message x) (s\<lparr>queue := (queue s)\<lparr>ch_buf := rest\<rparr>\<rparr>)
      in if status s' = Running then processQueue s' else Some s')"
  by (simp add: processQueue.simps [of s] recv_def sublogWrapper_Msg)

lemma processQueue_all:
  "ch_closed (queue s) \<Longrightarrow> status s = Running \<Longrightarrow> \<forall>x\<in>set (ch_buf (queue s)). \<not> ends_process x \<Longrightarrow>
   processQueue s = Some (s\<lparr>queue := (queue s)\<lparr>ch_buf := []\<rparr>, sink := sink s @ map entry (ch_buf (queue s))\<rparr>)"
proof (induction "ch_buf (queue s)" arbitrary: s)
  case Nil
  then show ?case by (simp add: processQueue_Nil)
next
  case (Cons x rest)
  from Cons.hyps(2) have buf: "ch_buf (queue s) = x # rest" by simp
  let ?s' = "s\<lparr>queue := (queue s)\<lparr>ch_buf := rest\<rparr>, sink := sink s @ [entry x]\<rparr>"
  have nx: "chosen (level x) \<noteq> FatalLevel" "chosen (level x) \<noteq> PanicLevel"
    using Cons.prems(3) buf by (simp_all add: ends_process_def)
  have w: "Msg (chosen (level x)) (message x) (s\<lparr>queue := (queue s)\<lparr>ch_buf := rest\<rparr>\<rparr>) = ?s'"
    using nx by (simp add: Msg_plain entry_def)
  have "processQueue s = processQueue ?s'"
    using Cons.prems(2) by (simp add: processQueue_Cons [OF buf] w)
  also have "\<dots> = Some (?s'\<lparr>queue := (queue ?s')\<lparr>ch_buf := []\<rparr>, sink := sink ?s' @ map entry (ch_buf (queue ?s'))\<rparr>)"
    using Cons.prems buf by (intro Cons.hyps(1)) simp_all
  finally show ?case by (simp add: buf)
qed

lemma processQueue_stops:
  "ch_buf (queue s) = pre @ x # post \<Longrightarrow> status s = Running \<Longrightarrow>
   \<forall>y\<in>set pre. \<not> ends_process y \<Longrightarrow> ends_process x \<Longrightarrow>
   processQueue s = Some (Msg (chosen (level x)) (message x)
        (s\<lparr>queue := (queue s)\<lparr>ch_buf := post\<rparr>, sink := sink s @ map entry pre\<rparr>))"
proof (induction pre arbitrary: s)
  case Nil
  then have buf: "ch_buf (queue s) = x # post" by simp
  have "status (Msg (chosen (level x)) (message x) s') \<noteq> Running" for s'
    using Nil.prems(4) by (auto simp: ends_process_def Msg_def Let_def)
  then show ?case
    by (simp add: processQueue_Cons [OF buf])
next
  case (Cons y pre)
  then have buf: "ch_buf (queue s) = y # pre @ x # post" by simp
  let ?s' = "s\<lparr>queue := (queue s)\<lparr>ch_buf := pre @ x # post\<rparr>, sink := sink s @ [entry y]\<rparr>"
  have ny: "chosen (level y) \<noteq> FatalLevel" "chosen (level y) \<noteq> PanicLevel"
    using Cons.prems(3) by (simp_all add: ends_process_def)
  have w: "Msg (chosen (level y)) (message y) (s\<lparr>queue := (queue s)\<lparr>ch_buf := pre @ x # post\<rparr>\<rparr>) = ?s'"
    using ny by (simp add: Msg_plain entry_def)
  have "processQueue s = processQueue ?s'"
    using Cons.prems(2) by (simp add: processQueue_Cons [OF buf] w)
  also have "\<dots> = Some (Msg (chosen (level x)) (message x)
        (?s'\<lparr>queue := (queue ?s')\<lparr>ch_buf := post\<rparr>, sink := sink ?s' @ map entry pre\<rparr>))"
    using Cons.prems by (intro Cons.IH) simp_all
  finally show ?case by simp
qed

lemma MarkInitialized_first:
  "\<not> queueClosed s \<Longrightarrow> \<not> ch_closed (queue s) \<Longrightarrow> status s = Running \<Longrightarrow>
   MarkInitialized Sprintf s =
     s\<lparr>queue := (queue s)\<lparr>ch_closed := True\<rparr>, queueClosed := True,
       sink := sink s @ [(InfoLevel, Sprintf ''Logger initialized'' [])],
       drainers := drainers s @ [AtRange]\<rparr>"
  by (simp add: MarkInitialized_def close_chan_def LogInfo_def logWrapper_direct chosen_levels Msg_plain)


lemma Msg_status_plain:
  "z \<noteq> FatalLevel \<Longrightarrow> z \<noteq> PanicLevel \<Longrightarrow> status (Msg z m s) = status s"
  by (simp add: Msg_def Let_def)

lemma drain_after_init:
  assumes "\<not> queueClosed s" "\<not> ch_closed (queue s)" "status s = Running"
  shows "\<forall>x\<in>set (ch_buf (queue s)). \<not> ends_process x \<Longrightarrow>
     processQueue (MarkInitialized Sprintf s) =
       Some (s\<lparr>queue := (queue s)\<lparr>ch_buf := [], ch_closed := True\<rparr>, queueClosed := True,
               sink := sink s @ (InfoLevel, Sprintf ''Logger initialized'' []) # map entry (ch_buf (queue s)),
               drainers := drainers s @ [AtRange]\<rparr>)"
    and "ch_buf (queue s) = pre @ x # post \<Longrightarrow> \<forall>y\<in>set pre. \<not> ends_process y \<Longrightarrow> ends_process x \<Longrightarrow>
     processQueue (MarkInitialized Sprintf s) =
       Some (Msg (chosen (level x)) (message x)
         (s\<lparr>queue := (queue s)\<lparr>ch_buf := post, ch_closed := True\<rparr>, queueClosed := True,
               sink := sink s @ (InfoLevel, Sprintf ''Logger initialized'' []) # map entry pre,
               drainers := drainers s @ [AtRange]\<rparr>))"
proof -
  let ?s1 = "MarkInitialized Sprintf s"
  have s1: "?s1 = s\<lparr>queue := (queue s)\<lparr>ch_closed := True\<rparr>, queueClosed := True,
       sink := sink s @ [(InfoLevel, Sprintf ''Logger initialized'' [])],
       drainers := drainers s @ [AtRange]\<rparr>"
    using assms by (rule MarkInitialized_first)
  {
    assume a: "\<forall>x\<in>set (ch_buf (queue s)). \<not> ends_process x"
    have "processQueue ?s1 = Some (?s1\<lparr>queue := (queue ?s1)\<lparr>ch_buf := []\<rparr>,
             sink := sink ?s1 @ map entry (ch_buf (queue ?s1))\<rparr>)"
      using a assms(3) by (intro processQueue_all) (simp_all add: s1)
    then show "processQueue ?s1 =
       Some (s\<lparr>queue := (queue s)\<lparr>ch_buf := [], ch_closed := True\<rparr>, queueClosed := True,
               sink := sink s @ (InfoLevel, Sprintf ''Logger initialized'' []) # map entry (ch_buf (queue s)),
               drainers := drainers s @ [AtRange]\<rparr>)"
      by (simp add: s1)
  next
    assume a: "ch_buf (queue s) = pre @ x # post" "\<forall>y\<in>set pre. \<not> ends_process y" "ends_process x"
    have "processQueue ?s1 = Some (Msg (chosen (level x)) (message x)
        (?s1\<lparr>queue := (queue ?s1)\<lparr>ch_buf := post\<rparr>, sink := sink ?s1 @ map entry pre\<rparr>))"
      using a assms(3) by (intro processQueue_stops) (simp_all add: s1)
    then show "processQueue ?s1 =
       Some (Msg (chosen (level x)) (message x)
         (s\<lparr>queue := (queue s)\<lparr>ch_buf := post, ch_closed := True\<rparr>, queueClosed := True,
               sink := sink s @ (InfoLevel, Sprintf ''Logger initialized'' []) # map entry pre,
               drainers := drainers s @ [AtRange]\<rparr>))"
      by (simp add: s1 Msg_def Let_def)
  }
qed


lemmas run_defs =
  MarkInitialized_def LogInfo_def LogFatal_def LogPanic_def logWrapper_def try_send_def close_chan_def
  sublogWrapper_def Msg_def init_def make_chan_def plain_def Let_def

section \<open>Goroutines interleaved: invariants of every run\<close>

subsection \<open>Runs\<close>

text \<open>
  A property of the trace and the configuration that holds at the start and is kept by
  every move holds after every schedule.
\<close>

lemma exec_Nil: "exec Sprintf [] c = ([], c)"
  by (simp add: exec_def)

lemma exec_snoc: "exec Sprintf (sched @ [t]) c = move Sprintf (exec Sprintf sched c) t"
  by (simp add: exec_def)

lemma exec_invariant:
  assumes base: "P [] c"
    and pres: "\<And>tr c1 t e c2. P tr c1 \<Longrightarrow> step Sprintf t c1 = Some (e, c2) \<Longrightarrow> P (tr @ [e]) c2"
  shows "P (fst (exec Sprintf sched c)) (snd (exec Sprintf sched c))"
proof (induction sched rule: rev_induct)
  case Nil
  from base show ?case by (simp add: exec_Nil)
next
  case (snoc t sched)
  show ?case
  proof (cases "step Sprintf t (snd (exec Sprintf sched c))")
    case None
    with snoc show ?thesis by (simp add: exec_snoc move_def)
  next
    case (Some p)
    obtain e c2 where p: "p = (e, c2)" by (cases p)
    from pres [OF snoc] Some show ?thesis by (simp add: exec_snoc move_def p)
  qed
qed

subsection \<open>What one move changes\<close>

lemmas step_unfold = step_def caller_step_def drainer_step_def Let_def try_send_def close_chan_def
  recv_def sublogWrapper_Msg Msg_fields

lemma step_flags:
  assumes "step Sprintf t c = Some (e, c')"
  shows "queueClosed (shared c) \<longrightarrow> queueClosed (shared c')"
    and "ch_closed (queue (shared c)) \<longrightarrow> ch_closed (queue (shared c'))"
    and "closed_of e = (if ch_closed (queue (shared c')) \<and> \<not> ch_closed (queue (shared c)) then [t] else [])"
    and "ch_cap (queue (shared c')) = ch_cap (queue (shared c))"
  using assms
  by (auto simp: step_unfold split: if_splits tid.splits frame.splits list.splits call.splits
        send_result.splits option.splits goroutine.splits)

text \<open>Counting the callers in a given frame when one caller moves.\<close>

lemma count_update:
  "i < length xs \<Longrightarrow>
   length (filter P (xs[i := y])) + (if P (xs ! i) then 1 else 0) =
     length (filter P xs) + (if P y then 1 else 0)"
proof (induction xs arbitrary: i)
  case Nil
  then show ?case by simp
next
  case (Cons x xs)
  then show ?case by (cases i) auto
qed

lemma count_pos: "i < length xs \<Longrightarrow> P (xs ! i) \<Longrightarrow> 0 < length (filter P xs)"
  by (metis filter_empty_conv length_greater_0_conv nth_mem)

lemma count_update_eq:
  "i < length xs \<Longrightarrow>
   length (filter P (xs[i := y])) =
     length (filter P xs) - (if P (xs ! i) then 1 else 0) + (if P y then 1 else 0)"
  using count_update [of i xs P y] count_pos [of i xs P] by (simp split: if_splits)

lemma step_sink:
  assumes "step Sprintf t c = Some (e, c')"
  shows "sink (shared c') = sink (shared c) @ map entry (wrote_of e)"
  using assms
  by (auto simp: step_unfold entry_def split: if_splits tid.splits frame.splits list.splits call.splits
        send_result.splits option.splits goroutine.splits recv_result.splits)

lemma caller_step_count:
  assumes "caller_step Sprintf i c = Some (e, c')"
  shows "length (drainers (shared c')) + at_go c' =
         length (drainers (shared c)) + at_go c + length (closed_of e)"
proof -
  from assms have i: "i < length (callers c)"
    by (auto simp: caller_step_def split: if_splits)
  have pos: "frame (callers c ! i) = MI_Go \<Longrightarrow> 0 < at_go c"
    using count_pos [OF i, of "\<lambda>t. frame t = MI_Go"] by (simp add: at_go_def)
  show ?thesis
    using assms i pos
    by (cases "frame (callers c ! i)")
       (auto simp: caller_step_def Let_def try_send_def close_chan_def sublogWrapper_Msg Msg_fields
          at_go_def count_update_eq
          split: list.splits call.splits if_splits)
qed

lemma drainer_step_count:
  assumes "drainer_step j c = Some (e, c')"
  shows "length (drainers (shared c')) + at_go c' =
         length (drainers (shared c)) + at_go c + length (closed_of e)"
  using assms
  by (auto simp: drainer_step_def Let_def recv_def sublogWrapper_Msg Msg_fields at_go_def
        split: if_splits goroutine.splits list.splits)

lemma step_count:
  assumes "step Sprintf t c = Some (e, c')"
  shows "length (drainers (shared c')) + at_go c' =
         length (drainers (shared c)) + at_go c + length (closed_of e)"
  using assms caller_step_count drainer_step_count
  by (auto simp: step_def split: if_splits tid.splits)

subsection \<open>The records in transit\<close>

text \<open>
  While at most one goroutine runs \<open>processQueue\<close>, a move either writes the oldest
  record in transit, or appends a record to those in transit, or leaves them alone.
\<close>

lemma single_drainer:
  "length ds \<le> 1 \<Longrightarrow> j < length ds \<Longrightarrow> j = 0 \<and> ds = [ds ! 0]"
  by (cases ds) auto

lemma caller_step_pending:
  assumes "caller_step Sprintf i c = Some (e, c')"
  shows "drained_of e @ pending c' = pending c @ enq_of e"
  using assms
  by (cases "frame (callers c ! i)")
     (auto simp: caller_step_def Let_def try_send_def close_chan_def sublogWrapper_Msg Msg_fields
        pending_def in_flight_def
        split: list.splits call.splits if_splits)

lemma drainer_step_pending:
  assumes "drainer_step j c = Some (e, c')" and "length (drainers (shared c)) \<le> 1"
  shows "drained_of e @ pending c' = pending c @ enq_of e"
proof -
  from assms(1) have j: "j < length (drainers (shared c))"
    by (auto simp: drainer_step_def Let_def split: if_splits)
  from single_drainer [OF assms(2) j] obtain g where g: "j = 0" "drainers (shared c) = [g]"
    by blast
  show ?thesis
    using assms(1) g
    by (cases g)
       (auto simp: drainer_step_def Let_def recv_def sublogWrapper_Msg Msg_fields
          pending_def in_flight_def split: list.splits if_splits)
qed

lemma step_pending:
  assumes "step Sprintf t c = Some (e, c')" and "length (drainers (shared c)) \<le> 1"
  shows "drained_of e @ pending c' = pending c @ enq_of e"
  using assms caller_step_pending drainer_step_pending
  by (auto simp: step_def split: if_splits tid.splits)

lemma trace_snoc:
  "enqueued (tr @ [e]) = enqueued tr @ enq_of e"
  "drained (tr @ [e]) = drained tr @ drained_of e"
  "written (tr @ [e]) = written tr @ wrote_of e"
  "closes (tr @ [e]) = closes tr @ closed_of e"
  by (simp_all add: enqueued_def drained_def written_def closes_def)

lemma trace_Nil:
  "enqueued [] = []" "drained [] = []" "written [] = []" "closes [] = []"
  by (simp_all add: enqueued_def drained_def written_def closes_def)

text \<open>The accounting holds of every run that starts with the channel open.\<close>

lemma fifo_inv_start:
  "drainers s0 = [] \<Longrightarrow> \<not> ch_closed (queue s0) \<Longrightarrow> fifo_inv s0 [] (start s0 progs)"
  by (simp add: fifo_inv_def trace_Nil start_def pending_def in_flight_def at_go_def comp_def)

lemma fifo_inv_step:
  assumes "fifo_inv s0 tr c" and "step Sprintf t c = Some (e, c')"
  shows "fifo_inv s0 (tr @ [e]) c'"
proof -
  from assms(1) have "length (drainers (shared c)) + at_go c \<le> 1"
    by (simp add: fifo_inv_def)
  then have one: "length (drainers (shared c)) \<le> 1"
    by simp
  from step_pending [OF assms(2) one] assms(1)
  have 1: "drained (tr @ [e]) @ pending c' = ch_buf (queue s0) @ enqueued (tr @ [e])"
    by (simp add: fifo_inv_def trace_snoc)
  from step_sink [OF assms(2)] assms(1)
  have 2: "sink (shared c') = sink s0 @ map entry (written (tr @ [e]))"
    by (simp add: fifo_inv_def trace_snoc)
  from step_count [OF assms(2)] assms(1)
  have 3: "length (drainers (shared c')) + at_go c' = length (closes (tr @ [e]))"
    by (simp add: fifo_inv_def trace_snoc)
  from step_flags(2,3) [OF assms(2)] assms(1)
  have 4: "length (closes (tr @ [e])) = (if ch_closed (queue (shared c')) then 1 else 0)"
    by (auto simp: fifo_inv_def trace_snoc split: if_splits)
  from 1 2 3 4 show ?thesis by (simp add: fifo_inv_def)
qed

lemma fifo_inv_exec:
  assumes "drainers s0 = []" and "\<not> ch_closed (queue s0)"
  shows "fifo_inv s0 (fst (exec Sprintf sched (start s0 progs))) (snd (exec Sprintf sched (start s0 progs)))"
  by (rule exec_invariant) (simp_all add: fifo_inv_start assms fifo_inv_step)

lemma subseq_drained_written: "subseq (drained tr) (written tr)"
proof (induction tr)
  case Nil
  show ?case by (simp add: trace_Nil)
next
  case (Cons e tr)
  have "subseq (drained_of e) (wrote_of e)"
    by (cases "(e)" rule: drained_of.cases) simp_all
  with Cons show ?case
    by (simp add: drained_def written_def list_emb_append_mono)
qed

subsection \<open>The flag and the channel\<close>

lemmas step_defs = exec_def move_def step_def caller_step_def drainer_step_def start_def recv_def

lemma exec_append:
  "exec Sprintf (s1 @ s2) c =
     (fst (exec Sprintf s1 c) @ fst (exec Sprintf s2 (snd (exec Sprintf s1 c))),
      snd (exec Sprintf s2 (snd (exec Sprintf s1 c))))"
proof (induction s2 rule: rev_induct)
  case Nil
  show ?case by (simp add: exec_Nil)
next
  case (snoc t s2)
  have "exec Sprintf (s1 @ s2 @ [t]) c = move Sprintf (exec Sprintf (s1 @ s2) c) t"
    using exec_snoc [of Sprintf "s1 @ s2" t c] by simp
  then show ?case
    by (simp add: snoc exec_snoc move_def split: option.splits)
qed

lemma flags_inv_exec: "flags_inv c (fst (exec Sprintf sched c)) (snd (exec Sprintf sched c))"
proof (rule exec_invariant)
  show "flags_inv c [] c" by (simp add: flags_inv_def trace_Nil)
next
  fix tr c1 t e c2
  assume "flags_inv c tr c1" and "step Sprintf t c1 = Some (e, c2)"
  with step_flags(1,2,3) [of Sprintf t c1 e c2] show "flags_inv c (tr @ [e]) c2"
    by (auto simp: flags_inv_def trace_snoc split: if_splits)
qed

lemma do_call_flags:
  "queueClosed s \<Longrightarrow> queueClosed (do_call Sprintf k s)"
  "ch_closed (queue s) \<Longrightarrow> ch_closed (queue (do_call Sprintf k s))"
  by (cases k; simp add: logWrapper_def MarkInitialized_def LogInfo_def try_send_def close_chan_def
        sublogWrapper_Msg Msg_fields Let_def split: send_result.splits)+

subsection \<open>One caller that begins with \<open>MarkInitialized\<close>\<close>

text \<open>
  After the records have been buffered, a single caller that initialises sends nothing
  more: what the goroutine it starts has to forward is what the channel held.
\<close>

lemma sole_initializer_start:
  "drainers s = [] \<Longrightarrow> sole_initializer (start s [MarkInit # rest])"
  by (simp add: sole_initializer_def start_def)

lemma sole_caller_step:
  assumes "sole_initializer c" and "caller_step Sprintf i c = Some (e, c')"
  shows "sole_initializer c' \<and> enq_of e = []"
proof -
  from assms(1) obtain t where t: "callers c = [t]" "\<And>l m. frame t \<noteq> LW_Send l m"
      "queueClosed (shared c) \<or> frame t = MI_Store \<or> (frame t = Ready \<and> (\<exists>r. todo t = MarkInit # r))"
    and f: "Finished \<in> set (drainers (shared c)) \<longrightarrow> ch_buf (queue (shared c)) = []"
    by (auto simp: sole_initializer_def)
  from assms(2) t(1) have i: "i = 0"
    by (auto simp: caller_step_def split: if_splits)
  show ?thesis
    using assms(2) t f unfolding i
    by (cases "frame t")
       (auto simp: caller_step_def Let_def close_chan_def sublogWrapper_Msg Msg_fields
          sole_initializer_def split: list.splits call.splits if_splits)
qed

lemma Finished_update:
  "Finished \<in> set (ds[j := g]) \<Longrightarrow> g \<noteq> Finished \<Longrightarrow> Finished \<in> set ds"
  using set_update_subset_insert [of ds j g] by auto

lemma sole_drainer_step:
  assumes "sole_initializer c" and "drainer_step j c = Some (e, c')"
  shows "sole_initializer c' \<and> enq_of e = []"
proof -
  from assms(2) have j: "j < length (drainers (shared c))"
    by (auto simp: drainer_step_def Let_def split: if_splits)
  show ?thesis
    using assms j
    by (cases "drainers (shared c) ! j")
       (auto simp: drainer_step_def Let_def recv_def sublogWrapper_Msg Msg_fields
          sole_initializer_def split: list.splits if_splits dest: Finished_update)
qed

lemma sole_step:
  assumes "sole_initializer c" and "step Sprintf t c = Some (e, c')"
  shows "sole_initializer c' \<and> enq_of e = []"
proof (cases t)
  case (Caller i)
  with assms(2) have "caller_step Sprintf i c = Some (e, c')"
    by (simp add: step_def split: if_splits)
  with assms(1) show ?thesis by (rule sole_caller_step)
next
  case (Drainer j)
  with assms(2) have "drainer_step j c = Some (e, c')"
    by (simp add: step_def split: if_splits)
  with assms(1) show ?thesis by (rule sole_drainer_step)
qed

lemma sole_exec:
  assumes "drainers s = []"
  shows "sole_initializer (snd (exec Sprintf sched (start s [MarkInit # rest]))) \<and>
         enqueued (fst (exec Sprintf sched (start s [MarkInit # rest]))) = []"
proof (rule exec_invariant [where P = "\<lambda>tr c. sole_initializer c \<and> enqueued tr = []"])
  show "sole_initializer (start s [MarkInit # rest]) \<and> enqueued [] = []"
    using assms by (simp add: sole_initializer_start trace_Nil)
next
  fix tr c1 t e c2
  assume "sole_initializer c1 \<and> enqueued tr = []" and "step Sprintf t c1 = Some (e, c2)"
  with sole_step [of c1 Sprintf t e c2] show "sole_initializer c2 \<and> enqueued (tr @ [e]) = []"
    by (simp add: trace_snoc)
qed

lemma drained_after_init:
  assumes "drainers s = []" and "\<not> ch_closed (queue s)"
  shows "drained (fst (exec Sprintf sched (start s [MarkInit # rest]))) @
           pending (snd (exec Sprintf sched (start s [MarkInit # rest]))) = ch_buf (queue s)"
    and "Finished \<in> set (drainers (shared (snd (exec Sprintf sched (start s [MarkInit # rest]))))) \<Longrightarrow>
         drained (fst (exec Sprintf sched (start s [MarkInit # rest]))) = ch_buf (queue s)"
proof -
  let ?r = "exec Sprintf sched (start s [MarkInit # rest])"
  from fifo_inv_exec [OF assms, of Sprintf sched "[MarkInit # rest]"]
  have 1: "drained (fst ?r) @ pending (snd ?r) = ch_buf (queue s) @ enqueued (fst ?r)"
    and one: "length (drainers (shared (snd ?r))) + at_go (snd ?r) \<le> 1"
    by (simp_all add: fifo_inv_def)
  from sole_exec [OF assms(1), of Sprintf sched rest]
  have 2: "enqueued (fst ?r) = []" and 3: "sole_initializer (snd ?r)"
    by simp_all
  from 1 2 show a: "drained (fst ?r) @ pending (snd ?r) = ch_buf (queue s)" by simp
  assume fin: "Finished \<in> set (drainers (shared (snd ?r)))"
  with 3 have buf: "ch_buf (queue (shared (snd ?r))) = []"
    by (simp add: sole_initializer_def)
  from fin one have "drainers (shared (snd ?r)) = [Finished]"
    by (cases "drainers (shared (snd ?r))") auto
  with buf have "pending (snd ?r) = []"
    by (simp add: pending_def in_flight_def)
  with a show "drained (fst ?r) = ch_buf (queue s)" by simp
qed

lemma interleaved_drain:
  fixes rest :: "'a call list"
  shows "let s = run_calls Sprintf (map log_call recs) init;
             r = exec Sprintf sched (start s [MarkInit # rest])
         in status s = Running \<and>
            ch_buf (queue s) = map (record_of Sprintf) (take 100 recs) \<and>
            drained (fst r) @ pending (snd r) = map (record_of Sprintf) (take 100 recs) \<and>
            (Finished \<in> set (drainers (shared (snd r))) \<longrightarrow>
               drained (fst r) = map (record_of Sprintf) (take 100 recs)) \<and>
            subseq (map entry (drained (fst r))) (sink (shared (snd r)))"
proof -
  let ?s = "run_calls Sprintf (map log_call recs) init"
  let ?r = "exec Sprintf sched (start ?s [MarkInit # rest])"
  have s: "?s = init\<lparr>queue := \<lparr>ch_buf = take 100 (map (record_of Sprintf) recs), ch_cap = 100,
                               ch_closed = False\<rparr>\<rparr>"
    by (rule run_calls_init)
  have pre: "drainers ?s = []" "\<not> ch_closed (queue ?s)"
    unfolding s by (simp_all add: init_def)
  have buf: "ch_buf (queue ?s) = map (record_of Sprintf) (take 100 recs)"
    unfolding s by (simp add: take_map)
  have st: "status ?s = Running" "sink ?s = []"
    unfolding s by (simp_all add: init_def)
  from fifo_inv_exec [OF pre, of Sprintf sched "[MarkInit # rest]"]
  have "sink (shared (snd ?r)) = map entry (written (fst ?r))"
    by (simp add: fifo_inv_def st)
  with subseq_drained_written [of "fst ?r"]
  have sub: "subseq (map entry (drained (fst ?r))) (sink (shared (snd ?r)))"
    by (simp add: subseq_map)
  from drained_after_init [OF pre, of Sprintf sched rest] st(1) buf sub
  show ?thesis
    unfolding Let_def by simp
qed

subsection \<open>The schedule that lets each goroutine run to its end\<close>

text \<open>
  Seven moves of the caller are \<open>MarkInitialized\<close>; two moves for each buffered record
  and one more are \<open>processQueue\<close>, when no record ends the process.
\<close>

lemma exec_Cons:
  "exec Sprintf (t # ts) c =
     (case step Sprintf t c of
        None \<Rightarrow> exec Sprintf ts c
      | Some (e, c') \<Rightarrow> (e # fst (exec Sprintf ts c'), snd (exec Sprintf ts c')))"
proof -
  have one: "exec Sprintf [t] c = move Sprintf ([], c) t"
    by (simp add: exec_def)
  show ?thesis
    using exec_append [of Sprintf "[t]" ts c]
    by (simp add: one move_def split: option.splits)
qed

lemma drainer_runs_to_end:
  assumes "drainers (shared c) = [AtRange]" and "ch_closed (queue (shared c))"
    and "status (shared c) = Running" and "\<forall>x\<in>set (ch_buf (queue (shared c))). \<not> ends_process x"
  shows "snd (exec Sprintf (replicate (2 * length (ch_buf (queue (shared c))) + 1) (Drainer 0)) c) =
           c\<lparr>shared := (shared c)\<lparr>queue := (queue (shared c))\<lparr>ch_buf := []\<rparr>,
                 sink := sink (shared c) @ map entry (ch_buf (queue (shared c))),
                 drainers := [Finished]\<rparr>\<rparr>"
  using assms
proof (induction "ch_buf (queue (shared c))" arbitrary: c)
  case Nil
  from Nil.hyps [symmetric] Nil.prems show ?case
    by (simp add: exec_Cons exec_Nil step_def drainer_step_def recv_def Let_def)
next
  case (Cons x xs)
  from Cons.hyps(2) have buf: "ch_buf (queue (shared c)) = x # xs" by simp
  from Cons.prems(4) buf have nx: "chosen (level x) \<noteq> FatalLevel" "chosen (level x) \<noteq> PanicLevel"
    by (simp_all add: ends_process_def)
  let ?c1 = "c\<lparr>shared := (shared c)\<lparr>queue := (queue (shared c))\<lparr>ch_buf := xs\<rparr>,
                 drainers := [AtBody x]\<rparr>\<rparr>"
  let ?c2 = "c\<lparr>shared := (shared c)\<lparr>queue := (queue (shared c))\<lparr>ch_buf := xs\<rparr>,
                 sink := sink (shared c) @ [entry x], drainers := [AtRange]\<rparr>\<rparr>"
  have s1: "step Sprintf (Drainer 0) c = Some (Received (Drainer 0) x, ?c1)"
    using Cons.prems buf by (simp add: step_def drainer_step_def recv_def Let_def)
  have s2: "step Sprintf (Drainer 0) ?c1 = Some (Wrote (Drainer 0) x, ?c2)"
    using Cons.prems nx
    by (simp add: step_def drainer_step_def sublogWrapper_Msg Msg_plain entry_def Let_def)
  have n: "replicate (2 * length (ch_buf (queue (shared c))) + 1) (Drainer 0) =
           Drainer 0 # Drainer 0 # replicate (2 * length xs + 1) (Drainer 0)"
    by (simp add: buf)
  have ih: "snd (exec Sprintf (replicate (2 * length (ch_buf (queue (shared ?c2))) + 1) (Drainer 0)) ?c2) =
           ?c2\<lparr>shared := (shared ?c2)\<lparr>queue := (queue (shared ?c2))\<lparr>ch_buf := []\<rparr>,
                 sink := sink (shared ?c2) @ map entry (ch_buf (queue (shared ?c2))),
                 drainers := [Finished]\<rparr>\<rparr>"
    using Cons.prems buf by (intro Cons.hyps(1)) simp_all
  show ?case
    unfolding n using ih by (simp add: exec_Cons s1 s2 buf)
qed

lemma initializer_runs_to_end:
  assumes "callers c = [\<lparr>frame = Ready, todo = MarkInit # rest\<rparr>]"
    and "\<not> queueClosed (shared c)" and "\<not> ch_closed (queue (shared c))" and "status (shared c) = Running"
  shows "snd (exec Sprintf (replicate 7 (Caller 0)) c) =
           \<lparr>shared = MarkInitialized Sprintf (shared c), callers = [\<lparr>frame = Ready, todo = rest\<rparr>]\<rparr>"
proof -
  have m: "MarkInitialized Sprintf (shared c) =
      (shared c)\<lparr>queue := (queue (shared c))\<lparr>ch_closed := True\<rparr>, queueClosed := True,
       sink := sink (shared c) @ [(InfoLevel, Sprintf ''Logger initialized'' [])],
       drainers := drainers (shared c) @ [AtRange]\<rparr>"
    using assms(2-4) by (rule MarkInitialized_first)
  have r: "replicate 7 (Caller 0) = [Caller 0, Caller 0, Caller 0, Caller 0, Caller 0, Caller 0, Caller 0]"
    by (simp add: eval_nat_numeral)
  show ?thesis
    unfolding m r using assms
    by (cases c)
       (simp add: exec_Cons exec_Nil step_def caller_step_def close_chan_def sublogWrapper_Msg
          chosen_levels Msg_plain Let_def)
qed

lemma drain_schedule:
  fixes rest :: "'a call list"
  assumes "\<forall>x\<in>set (take 100 recs). \<not> ends_process (record_of Sprintf x)"
  shows "shared (snd (exec Sprintf
             (replicate 7 (Caller 0) @ replicate (2 * length (take 100 recs) + 1) (Drainer 0))
             (start (run_calls Sprintf (map log_call recs) init) [MarkInit # rest]))) =
         \<lparr>queue = \<lparr>ch_buf = [], ch_cap = 100, ch_closed = True\<rparr>, queueClosed = True,
           sink = (InfoLevel, Sprintf ''Logger initialized'' []) #
                    map (entry \<circ> record_of Sprintf) (take 100 recs),
           drainers = [Finished], status = Running\<rparr>"
proof -
  let ?s = "run_calls Sprintf (map log_call recs) init"
  let ?c = "start ?s [MarkInit # rest]"
  let ?c1 = "\<lparr>shared = MarkInitialized Sprintf ?s, callers = [\<lparr>frame = Ready, todo = rest\<rparr>]\<rparr>"
  have s: "?s = init\<lparr>queue := \<lparr>ch_buf = take 100 (map (record_of Sprintf) recs), ch_cap = 100,
                               ch_closed = False\<rparr>\<rparr>"
    by (rule run_calls_init)
  have pre: "\<not> queueClosed ?s" "\<not> ch_closed (queue ?s)" "status ?s = Running"
    unfolding s by (simp_all add: init_def)
  have m: "MarkInitialized Sprintf ?s =
      \<lparr>queue = \<lparr>ch_buf = map (record_of Sprintf) (take 100 recs), ch_cap = 100, ch_closed = True\<rparr>,
        queueClosed = True, sink = [(InfoLevel, Sprintf ''Logger initialized'' [])],
        drainers = [AtRange], status = Running\<rparr>"
    unfolding MarkInitialized_first [OF pre] unfolding s by (simp add: init_def take_map)
  have 1: "snd (exec Sprintf (replicate 7 (Caller 0)) ?c) = ?c1"
    using pre initializer_runs_to_end [of ?c rest Sprintf] by (simp add: start_def)
  have len: "length (ch_buf (queue (shared ?c1))) = length (take 100 recs)"
    by (simp add: m)
  have "snd (exec Sprintf (replicate (2 * length (ch_buf (queue (shared ?c1))) + 1) (Drainer 0)) ?c1) =
           ?c1\<lparr>shared := (shared ?c1)\<lparr>queue := (queue (shared ?c1))\<lparr>ch_buf := []\<rparr>,
                 sink := sink (shared ?c1) @ map entry (ch_buf (queue (shared ?c1))),
                 drainers := [Finished]\<rparr>\<rparr>"
    using assms by (intro drainer_runs_to_end) (simp_all add: m)
  then have 2: "shared (snd (exec Sprintf (replicate (2 * length (take 100 recs) + 1) (Drainer 0)) ?c1)) =
         \<lparr>queue = \<lparr>ch_buf = [], ch_cap = 100, ch_closed = True\<rparr>, queueClosed = True,
           sink = (InfoLevel, Sprintf ''Logger initialized'' []) #
                    map (entry \<circ> record_of Sprintf) (take 100 recs),
           drainers = [Finished], status = Running\<rparr>"
    unfolding len by (simp add: m)
  show ?thesis
    by (simp only: exec_append 1 snd_conv 2)
qed

lemma sequential_drain:
  fixes rest :: "'a call list"
  assumes "\<forall>x\<in>set (take 100 recs). \<not> ends_process (record_of Sprintf x)"
  shows "let s = run_calls Sprintf (map log_call recs) init;
             r' = exec Sprintf
                    (replicate 7 (Caller 0) @ replicate (2 * length (take 100 recs) + 1) (Drainer 0))
                    (start s [MarkInit # rest])
         in drainers (shared (snd r')) = [Finished] \<and> status (shared (snd r')) = Running \<and>
            sink (shared (snd r')) =
              (InfoLevel, Sprintf ''Logger initialized'' []) #
                map (entry \<circ> record_of Sprintf) (take 100 recs) \<and>
            processQueue (MarkInitialized Sprintf s) = Some ((shared (snd r'))\<lparr>drainers := [AtRange]\<rparr>)"
proof -
  let ?s = "run_calls Sprintf (map log_call recs) init"
  have s: "?s = init\<lparr>queue := \<lparr>ch_buf = take 100 (map (record_of Sprintf) recs), ch_cap = 100,
                               ch_closed = False\<rparr>\<rparr>"
    by (rule run_calls_init)
  have pre: "\<not> queueClosed ?s" "\<not> ch_closed (queue ?s)" "status ?s = Running"
    unfolding s by (simp_all add: init_def)
  have "\<forall>x\<in>set (ch_buf (queue ?s)). \<not> ends_process x"
    unfolding s using assms by (auto simp: take_map)
  from drain_after_init(1) [OF pre this, of Sprintf]
  have "processQueue (MarkInitialized Sprintf ?s) =
      Some \<lparr>queue = \<lparr>ch_buf = [], ch_cap = 100, ch_closed = True\<rparr>, queueClosed = True,
           sink = (InfoLevel, Sprintf ''Logger initialized'' []) #
                    map (entry \<circ> record_of Sprintf) (take 100 recs),
           drainers = [AtRange], status = Running\<rparr>"
    unfolding s by (simp add: init_def take_map)
  then show ?thesis
    unfolding Let_def drain_schedule [OF assms] by simp
qed

subsection \<open>Where the channel can panic\<close>

lemma flag_before_close_caller_step:
  assumes "flag_before_close c" and "caller_step Sprintf i c = Some (e, c')"
  shows "flag_before_close c'"
proof -
  from assms(2) have i: "i < length (callers c)"
    by (auto simp: caller_step_def split: if_splits)
  then have mem: "callers c ! i \<in> set (callers c)" by simp
  have upd: "t \<in> set ((callers c)[i := u]) \<Longrightarrow> t = u \<or> t \<in> set (callers c)" for t u
    using set_update_subset_insert [of "callers c" i u] by auto
  show ?thesis
    using assms mem
    by (cases "frame (callers c ! i)")
       (auto simp: caller_step_def Let_def try_send_def close_chan_def sublogWrapper_Msg Msg_fields
          flag_before_close_def split: list.splits call.splits if_splits dest!: upd)
qed

lemma flag_before_close_drainer_step:
  assumes "flag_before_close c" and "drainer_step j c = Some (e, c')"
  shows "flag_before_close c'"
  using assms
  by (cases "drainers (shared c) ! j")
     (auto simp: drainer_step_def Let_def recv_def sublogWrapper_Msg Msg_fields
        flag_before_close_def split: list.splits if_splits)

text \<open>
  In every run the channel is closed only once the flag is set: \<open>MarkInitialized\<close>
  stores the flag before it closes. A load after the close therefore sees the flag set;
  the send that meets the closed channel follows a load made before the close.
\<close>

lemma closed_channel_implies_flag:
  assumes "ch_closed (queue s) \<longrightarrow> queueClosed s"
  shows "ch_closed (queue (shared (snd (exec Sprintf sched (start s progs))))) \<longrightarrow>
         queueClosed (shared (snd (exec Sprintf sched (start s progs))))"
proof -
  have "flag_before_close (snd (exec Sprintf sched (start s progs)))"
  proof (rule exec_invariant [where P = "\<lambda>tr c. flag_before_close c"])
    show "flag_before_close (start s progs)"
      using assms by (auto simp: flag_before_close_def start_def)
  next
    fix tr c1 t e c2
    assume "flag_before_close c1" and "step Sprintf t c1 = Some (e, c2)"
    then show "flag_before_close c2"
      using flag_before_close_caller_step flag_before_close_drainer_step
      by (cases t) (auto simp: step_def split: if_splits)
  qed
  then show ?thesis by (simp add: flag_before_close_def)
qed

text \<open>A call of \<open>logWrapper\<close> left to run its three moves is \<open>logWrapper\<close>.\<close>

lemma logger_runs_to_end:
  assumes "callers c = [\<lparr>frame = Ready, todo = Log lvl format args # rest\<rparr>]"
    and "ch_closed (queue (shared c)) \<longrightarrow> queueClosed (shared c)" and "status (shared c) = Running"
  shows "snd (exec Sprintf (replicate 3 (Caller 0)) c) =
           \<lparr>shared = logWrapper Sprintf lvl format args (shared c),
             callers = [\<lparr>frame = Ready, todo = rest\<rparr>]\<rparr>"
proof -
  have r: "replicate 3 (Caller 0) = [Caller 0, Caller 0, Caller 0]"
    by (simp add: eval_nat_numeral)
  show ?thesis
    unfolding r using assms
    by (cases c)
       (auto simp: exec_Cons exec_Nil step_def caller_step_def logWrapper_def try_send_def Let_def)
qed

lemma one_caller_start:
  "ch_closed (queue s) \<longrightarrow> queueClosed s \<Longrightarrow> one_caller (start s [prog])"
  by (simp add: one_caller_def start_def)

lemma one_caller_caller_step:
  assumes "one_caller c" and "caller_step Sprintf i c = Some (e, c')"
  shows "one_caller c' \<and> panic_of e = []"
proof -
  from assms(1) obtain t where t: "callers c = [t]"
      "(\<exists>l m. frame t = LW_Send l m) \<or> frame t = MI_Store \<or> frame t = MI_Close
         \<longrightarrow> \<not> ch_closed (queue (shared c))"
      "frame t = MI_Close \<longrightarrow> queueClosed (shared c)"
    and q: "ch_closed (queue (shared c)) \<longrightarrow> queueClosed (shared c)"
    by (auto simp: one_caller_def)
  from assms(2) t(1) have i: "i = 0"
    by (auto simp: caller_step_def split: if_splits)
  show ?thesis
    using assms(2) t q unfolding i
    by (cases "frame t")
       (auto simp: caller_step_def Let_def try_send_def close_chan_def sublogWrapper_Msg Msg_fields
          one_caller_def split: list.splits call.splits if_splits)
qed

lemma one_caller_drainer_step:
  assumes "one_caller c" and "drainer_step j c = Some (e, c')"
  shows "one_caller c' \<and> panic_of e = []"
  using assms
  by (cases "drainers (shared c) ! j")
     (auto simp: drainer_step_def Let_def recv_def sublogWrapper_Msg Msg_fields
        one_caller_def split: list.splits if_splits)

lemma one_caller_step:
  assumes "one_caller c" and "step Sprintf t c = Some (e, c')"
  shows "one_caller c' \<and> panic_of e = []"
proof (cases t)
  case (Caller i)
  with assms(2) have "caller_step Sprintf i c = Some (e, c')"
    by (simp add: step_def split: if_splits)
  with assms(1) show ?thesis by (rule one_caller_caller_step)
next
  case (Drainer j)
  with assms(2) have "drainer_step j c = Some (e, c')"
    by (simp add: step_def split: if_splits)
  with assms(1) show ?thesis by (rule one_caller_drainer_step)
qed

text \<open>
  With a single calling goroutine, whatever it calls and however the goroutine running
  \<open>processQueue\<close> is scheduled against it, no send meets the closed channel and the
  channel is not closed twice.
\<close>

lemma one_caller_never_panics_on_the_channel:
  assumes "ch_closed (queue s) \<longrightarrow> queueClosed s"
  shows "panics (fst (exec Sprintf sched (start s [prog]))) = []"
proof -
  have "one_caller (snd (exec Sprintf sched (start s [prog]))) \<and>
        panics (fst (exec Sprintf sched (start s [prog]))) = []"
  proof (rule exec_invariant [where P = "\<lambda>tr c. one_caller c \<and> panics tr = []"])
    show "one_caller (start s [prog]) \<and> panics [] = []"
      using assms by (simp add: one_caller_start panics_def)
  next
    fix tr c1 t e c2
    assume "one_caller c1 \<and> panics tr = []" and "step Sprintf t c1 = Some (e, c2)"
    with one_caller_step [of c1 Sprintf t e c2] show "one_caller c2 \<and> panics (tr @ [e]) = []"
      by (simp add: panics_def)
  qed
  then show ?thesis by simp
qed

subsection \<open>Outcomes of calls\<close>

text \<open>
  A move that completes a call is the one move of that call with an outcome; the moves
  of other goroutines leave a caller's count alone.
\<close>

lemma caller_step_outcome:
  assumes "caller_step Sprintf i c = Some (e, c')" and "k < length (callers c)"
  shows "length (callers c') = length (callers c) \<and>
         length (filter (is_outcome k) [e]) + calls_left (callers c' ! k) = calls_left (callers c ! k)"
proof -
  from assms(1) have i: "i < length (callers c)"
    by (auto simp: caller_step_def split: if_splits)
  show ?thesis
    using assms i
    by (cases "frame (callers c ! i)")
       (auto simp: caller_step_def Let_def try_send_def close_chan_def calls_left_def nth_list_update
          split: list.splits call.splits if_splits)
qed

lemma drainer_step_outcome:
  assumes "drainer_step j c = Some (e, c')"
  shows "callers c' = callers c \<and> \<not> is_outcome k e"
  using assms
  by (auto simp: drainer_step_def Let_def recv_def split: if_splits goroutine.splits list.splits)

lemma step_outcome:
  assumes "step Sprintf t c = Some (e, c')" and "k < length (callers c)"
  shows "length (callers c') = length (callers c) \<and>
         length (outcomes k (tr @ [e])) + calls_left (callers c' ! k) =
           length (outcomes k tr) + calls_left (callers c ! k)"
proof (cases t)
  case (Caller i)
  with assms(1) have "caller_step Sprintf i c = Some (e, c')"
    by (simp add: step_def split: if_splits)
  from caller_step_outcome [OF this assms(2)] show ?thesis
    by (simp add: outcomes_def)
next
  case (Drainer j)
  with assms(1) have "drainer_step j c = Some (e, c')"
    by (simp add: step_def split: if_splits)
  from drainer_step_outcome [OF this, of k] show ?thesis
    by (simp add: outcomes_def)
qed

lemma outcomes_exec:
  "length (callers (snd (exec Sprintf sched (start s0 progs)))) = length progs \<and>
   (\<forall>k<length progs.
      length (outcomes k (fst (exec Sprintf sched (start s0 progs)))) +
        calls_left (callers (snd (exec Sprintf sched (start s0 progs))) ! k) = length (progs ! k))"
proof (rule exec_invariant [where P = "\<lambda>tr c. length (callers c) = length progs \<and>
    (\<forall>k<length progs. length (outcomes k tr) + calls_left (callers c ! k) = length (progs ! k))"])
  show "length (callers (start s0 progs)) = length progs \<and>
    (\<forall>k<length progs. length (outcomes k []) + calls_left (callers (start s0 progs) ! k) = length (progs ! k))"
    by (simp add: start_def outcomes_def calls_left_def)
next
  fix tr c1 t e c2
  assume inv: "length (callers c1) = length progs \<and>
    (\<forall>k<length progs. length (outcomes k tr) + calls_left (callers c1 ! k) = length (progs ! k))"
    and st: "step Sprintf t c1 = Some (e, c2)"
  show "length (callers c2) = length progs \<and>
    (\<forall>k<length progs. length (outcomes k (tr @ [e])) + calls_left (callers c2 ! k) = length (progs ! k))"
  proof (cases "progs = []")
    case True
    with inv st show ?thesis
      by (auto simp: step_def caller_step_def drainer_step_def Let_def recv_def
            split: if_splits tid.splits goroutine.splits list.splits)
  next
    case False
    then have 0: "0 < length (callers c1)" using inv by simp
    from step_outcome [OF st 0, of tr] inv have len: "length (callers c2) = length progs" by simp
    moreover have "length (outcomes k (tr @ [e])) + calls_left (callers c2 ! k) = length (progs ! k)"
      if "k < length progs" for k
      using step_outcome [OF st, of k tr] inv that by simp
    ultimately show ?thesis by simp
  qed
qed

lemma send_never_blocks:
  "i < length (callers c) \<Longrightarrow> frame (callers c ! i) = LW_Send lvl msg \<Longrightarrow>
   status (shared c) = Running \<Longrightarrow>
   \<exists>e c'. step Sprintf (Caller i) c = Some (e, c') \<and>
     (e = Enqueued (Caller i) \<lparr>level = lvl, message = msg\<rparr> \<or>
      e = Dropped (Caller i) \<lparr>level = lvl, message = msg\<rparr> \<or>
      e = PanickedAt (Caller i) ''send on closed channel'')"
  by (simp add: step_def caller_step_def Let_def try_send_def)

text \<open>
  A call of \<open>logWrapper\<close> that runs without another goroutine moving, from a state in
  which the channel is closed only if the flag is set: its record is appended to the
  channel and nothing else changes, or nothing changes at all (the record is dropped),
  or the state is that of \<open>sublogWrapper\<close> on the record, and no two of these hold at
  once. Which one holds is decided by the flag and the room in the channel.
\<close>

lemma logWrapper_uninterrupted:
  assumes "ch_closed (queue s) \<longrightarrow> queueClosed s"
  shows "let x = \<lparr>level = lvl, message = Sprintf format args\<rparr>;
             s' = logWrapper Sprintf lvl format args s;
             enqueue = (s' = s\<lparr>queue := (queue s)\<lparr>ch_buf := ch_buf (queue s) @ [x]\<rparr>\<rparr>);
             drop = (s' = s);
             direct = (s' = sublogWrapper lvl (message x) s)
         in (enqueue \<or> drop \<or> direct) \<and>
            \<not> (enqueue \<and> drop) \<and> \<not> (enqueue \<and> direct) \<and> \<not> (drop \<and> direct) \<and>
            (enqueue \<longleftrightarrow> \<not> queueClosed s \<and> length (ch_buf (queue s)) < ch_cap (queue s)) \<and>
            (drop \<longleftrightarrow> \<not> queueClosed s \<and> ch_cap (queue s) \<le> length (ch_buf (queue s))) \<and>
            (direct \<longleftrightarrow> queueClosed s)"
proof -
  define x where "x = \<lparr>level = lvl, message = Sprintf format args\<rparr>"
  define E where "E = s\<lparr>queue := (queue s)\<lparr>ch_buf := ch_buf (queue s) @ [x]\<rparr>\<rparr>"
  define D where "D = sublogWrapper lvl (message x) s"
  have ne1: "E \<noteq> s"
  proof
    assume "E = s"
    then have "length (ch_buf (queue E)) = length (ch_buf (queue s))" by simp
    then show False by (simp add: E_def)
  qed
  have ne2: "D \<noteq> s"
  proof
    assume "D = s"
    then have "length (sink D) = length (sink s)" by simp
    then show False by (simp add: D_def sublogWrapper_Msg Msg_fields)
  qed
  have ne3: "E \<noteq> D"
  proof
    assume "E = D"
    then have "length (sink E) = length (sink D)" by simp
    then show False by (simp add: E_def D_def sublogWrapper_Msg Msg_fields)
  qed
  have r: "logWrapper Sprintf lvl format args s =
            (if queueClosed s then D
             else if length (ch_buf (queue s)) < ch_cap (queue s) then E else s)"
    using assms by (auto simp: logWrapper_def try_send_def D_def E_def x_def)
  show ?thesis
    unfolding Let_def x_def [symmetric] E_def [symmetric] D_def [symmetric] r
    using ne1 ne2 ne3 by (auto simp: not_less)
qed

section \<open>Claims about calls\<close>

text \<open>
  C10. A record whose level string is none of trace, debug, info, warn, error, fatal and
  panic is written by \<open>sublogWrapper\<close> at Info level, with the state otherwise
  untouched: it is neither rejected nor does it end the process. The dispatch is total:
  whatever the level string, the message is handed to the sink at some level.
\<close>

theorem sublogWrapper_unknown_level_is_info:
  "(lvl \<notin> {''trace'', ''debug'', ''info'', ''warn'', ''error'', ''fatal'', ''panic''} \<longrightarrow>
      sublogWrapper lvl msg s = s\<lparr>sink := sink s @ [(InfoLevel, msg)]\<rparr>) \<and>
   (\<exists>z. sink (sublogWrapper lvl msg s) = sink s @ [(z, msg)])"
  by (simp add: sublogWrapper_def Msg_def Let_def)

theorem sublogWrapper_unknown_level_is_info_witness:
  "''verbose'' \<notin> {''trace'', ''debug'', ''info'', ''warn'', ''error'', ''fatal'', ''panic''} \<and>
   sublogWrapper ''verbose'' ''m'' init = init\<lparr>sink := [(InfoLevel, ''m'')]\<rparr> \<and>
   status (sublogWrapper ''verbose'' ''m'' init) = Running"
  using sublogWrapper_unknown_level_is_info [of "''verbose''" "''m''" init]
  by (simp add: init_def)

text \<open>
  C7. \<open>logWrapper\<close> formats the template and the arguments before anything else, and
  the string it obtained is the one delivered on either route. After the transition
  the sink receives the level chosen for the call with \<open>Sprintf format args\<close>. Before
  it, with room in the channel, the record enqueued carries \<open>Sprintf format args\<close>,
  and when \<open>MarkInitialized\<close> and then the goroutine it starts have run, the sink has
  received that same entry after the records buffered earlier. In the interleaved
  reading the first move of a call is the formatting: it leaves the shared state alone
  and takes the caller to the load of the flag with the message in hand.
\<close>

theorem message_formatted_at_call_time:
  "(queueClosed s \<longrightarrow>
      sink (logWrapper Sprintf lvl format args s) = sink s @ [(chosen lvl, Sprintf format args)]) \<and>
   (\<not> queueClosed s \<and> \<not> ch_closed (queue s) \<and> status s = Running \<and>
    length (ch_buf (queue s)) < ch_cap (queue s) \<and> (\<forall>x\<in>set (ch_buf (queue s)). \<not> ends_process x) \<longrightarrow>
      ch_buf (queue (logWrapper Sprintf lvl format args s)) =
        ch_buf (queue s) @ [\<lparr>level = lvl, message = Sprintf format args\<rparr>] \<and>
      (\<exists>s'. processQueue (MarkInitialized Sprintf (logWrapper Sprintf lvl format args s)) = Some s' \<and>
            sink s' = sink s @ (InfoLevel, Sprintf ''Logger initialized'' []) #
                        map entry (ch_buf (queue s)) @ [(chosen lvl, Sprintf format args)])) \<and>
   (i < length (callers c) \<and> callers c ! i = \<lparr>frame = Ready, todo = Log lvl format args # rest\<rparr> \<and>
    status (shared c) = Running \<longrightarrow>
      step Sprintf (Caller i) c =
        Some (Formatted (Caller i) lvl (Sprintf format args),
              c\<lparr>callers := (callers c)[i := \<lparr>frame = LW_Load lvl (Sprintf format args), todo = rest\<rparr>]\<rparr>))"
proof (intro conjI impI)
  assume "queueClosed s"
  then show "sink (logWrapper Sprintf lvl format args s) = sink s @ [(chosen lvl, Sprintf format args)]"
    by (simp add: logWrapper_direct Msg_fields)
next
  assume a: "\<not> queueClosed s \<and> \<not> ch_closed (queue s) \<and> status s = Running \<and>
    length (ch_buf (queue s)) < ch_cap (queue s) \<and> (\<forall>x\<in>set (ch_buf (queue s)). \<not> ends_process x)"
  let ?x = "\<lparr>level = lvl, message = Sprintf format args\<rparr>"
  let ?s1 = "s\<lparr>queue := (queue s)\<lparr>ch_buf := ch_buf (queue s) @ [?x]\<rparr>\<rparr>"
  have s1: "logWrapper Sprintf lvl format args s = ?s1"
    using a by (simp add: logWrapper_buffering)
  show "ch_buf (queue (logWrapper Sprintf lvl format args s)) = ch_buf (queue s) @ [?x]"
    by (simp add: s1)
  have pre: "\<not> queueClosed ?s1" "\<not> ch_closed (queue ?s1)" "status ?s1 = Running"
    using a by simp_all
  show "\<exists>s'. processQueue (MarkInitialized Sprintf (logWrapper Sprintf lvl format args s)) = Some s' \<and>
            sink s' = sink s @ (InfoLevel, Sprintf ''Logger initialized'' []) #
                        map entry (ch_buf (queue s)) @ [(chosen lvl, Sprintf format args)]"
  proof (cases "ends_process ?x")
    case False
    with a have "\<forall>y\<in>set (ch_buf (queue ?s1)). \<not> ends_process y" by simp
    from drain_after_init(1) [OF pre this, of Sprintf] show ?thesis
      by (simp add: s1 entry_def)
  next
    case True
    have "ch_buf (queue ?s1) = ch_buf (queue s) @ ?x # []" by simp
    from drain_after_init(2) [OF pre this _ True, of Sprintf] a show ?thesis
      by (simp add: s1 entry_def Msg_fields)
  qed
next
  assume "i < length (callers c) \<and> callers c ! i = \<lparr>frame = Ready, todo = Log lvl format args # rest\<rparr> \<and>
    status (shared c) = Running"
  then show "step Sprintf (Caller i) c =
        Some (Formatted (Caller i) lvl (Sprintf format args),
              c\<lparr>callers := (callers c)[i := \<lparr>frame = LW_Load lvl (Sprintf format args), todo = rest\<rparr>]\<rparr>)"
    by (simp add: step_def caller_step_def)
qed

theorem message_formatted_at_call_time_witness:
  "queueClosed (MarkInitialized plain init) \<and>
   sink (logWrapper plain ''warn'' ''w'' [] (MarkInitialized plain init)) =
     [(InfoLevel, ''Logger initialized''), (WarnLevel, ''w'')] \<and>
   \<not> queueClosed (LogInfo plain ''a'' [] init) \<and>
   ch_buf (queue (LogInfo plain ''a'' [] init)) = [\<lparr>level = ''info'', message = ''a''\<rparr>] \<and>
   \<not> ends_process \<lparr>level = ''info'', message = ''a''\<rparr> \<and>
   ch_buf (queue (logWrapper plain ''warn'' ''w'' [] (LogInfo plain ''a'' [] init))) =
     [\<lparr>level = ''info'', message = ''a''\<rparr>, \<lparr>level = ''warn'', message = ''w''\<rparr>] \<and>
   (\<exists>s'. processQueue (MarkInitialized plain
           (logWrapper plain ''warn'' ''w'' [] (LogInfo plain ''a'' [] init))) = Some s' \<and>
         sink s' = [(InfoLevel, ''Logger initialized''), (InfoLevel, ''a''), (WarnLevel, ''w'')]) \<and>
   step plain (Caller 0) (start init [[Log ''warn'' ''w'' []]]) =
     Some (Formatted (Caller 0) ''warn'' ''w'',
           \<lparr>shared = init, callers = [\<lparr>frame = LW_Load ''warn'' ''w'', todo = []\<rparr>]\<rparr>)"
proof -
  have g: "MarkInitialized plain init =
       \<lparr>queue = \<lparr>ch_buf = [], ch_cap = 100, ch_closed = True\<rparr>,
         queueClosed = True, sink = [(InfoLevel, ''Logger initialized'')],
         drainers = [AtRange], status = Running\<rparr>"
    by (simp add: run_defs)
  have k: "LogInfo plain ''a'' [] init =
       \<lparr>queue = \<lparr>ch_buf = [\<lparr>level = ''info'', message = ''a''\<rparr>], ch_cap = 100, ch_closed = False\<rparr>,
         queueClosed = False, sink = [], drainers = [], status = Running\<rparr>"
    by (simp add: run_defs)
  have n: "\<not> ends_process \<lparr>level = ''info'', message = ''a''\<rparr>"
    by (simp add: ends_process_def chosen_levels)
  have 1: "queueClosed (MarkInitialized plain init)"
    by (simp add: g)
  have 2: "\<not> queueClosed (LogInfo plain ''a'' [] init) \<and>
    \<not> ch_closed (queue (LogInfo plain ''a'' [] init)) \<and>
    status (LogInfo plain ''a'' [] init) = Running \<and>
    length (ch_buf (queue (LogInfo plain ''a'' [] init))) < ch_cap (queue (LogInfo plain ''a'' [] init)) \<and>
    (\<forall>x\<in>set (ch_buf (queue (LogInfo plain ''a'' [] init))). \<not> ends_process x)"
    using n by (simp add: k)
  have 3: "0 < length (callers (start init [[Log ''warn'' ''w'' ([] :: unit list)]])) \<and>
     callers (start init [[Log ''warn'' ''w'' []]]) ! 0 = \<lparr>frame = Ready, todo = Log ''warn'' ''w'' [] # []\<rparr> \<and>
     status (shared (start init [[Log ''warn'' ''w'' []]])) = Running"
    by (simp add: start_def init_def)
  note a = message_formatted_at_call_time [where s = "MarkInitialized plain init" and Sprintf = plain
      and lvl = "''warn''" and format = "''w''" and args = "[]", THEN conjunct1, rule_format, OF 1]
  note b = message_formatted_at_call_time [where s = "LogInfo plain ''a'' [] init" and Sprintf = plain
      and lvl = "''warn''" and format = "''w''" and args = "[]", THEN conjunct2, THEN conjunct1,
      rule_format, OF 2]
  note c = message_formatted_at_call_time [where Sprintf = plain and i = 0
      and c = "start init [[Log ''warn'' ''w'' []]]"
      and lvl = "''warn''" and format = "''w''" and args = "[]" and rest = "[]",
      THEN conjunct2, THEN conjunct2, rule_format, OF 3]
  have ch: "chosen ''warn'' = WarnLevel" "chosen ''info'' = InfoLevel" by (rule chosen_levels)+
  show ?thesis
    using 1 n a [unfolded g] b [unfolded k] c
    unfolding g k
    by (simp add: ch plain_def start_def entry_def)
qed




text \<open>
  C9, as amended. \<open>LogFatal\<close> and \<open>LogPanic\<close> take the route of every other level:
  before the transition the record is enqueued, or dropped when the channel is full,
  and the call returns to its caller with the process running; after the transition
  the record is written and the process then exits (fatal) or panics with the message
  (panic). A fatal or panic record that was buffered ends the process when the
  goroutine running \<open>processQueue\<close> writes it.
\<close>

theorem fatal_and_panic_follow_the_common_route:
  "(\<not> queueClosed s \<and> \<not> ch_closed (queue s) \<longrightarrow>
      logWrapper Sprintf lvl format args s =
        (if length (ch_buf (queue s)) < ch_cap (queue s)
         then s\<lparr>queue := (queue s)\<lparr>ch_buf := ch_buf (queue s) @
                  [\<lparr>level = lvl, message = Sprintf format args\<rparr>]\<rparr>\<rparr>
         else s)) \<and>
   (queueClosed s \<longrightarrow>
      logWrapper Sprintf lvl format args s = Msg (chosen lvl) (Sprintf format args) s \<and>
      LogFatal Sprintf format args s =
        s\<lparr>sink := sink s @ [(FatalLevel, Sprintf format args)], status := Exited\<rparr> \<and>
      LogPanic Sprintf format args s =
        s\<lparr>sink := sink s @ [(PanicLevel, Sprintf format args)],
          status := Panicked (Sprintf format args)\<rparr>) \<and>
   (ch_buf (queue s) = x # rest \<and> level x = ''fatal'' \<longrightarrow>
      processQueue s =
        Some (s\<lparr>queue := (queue s)\<lparr>ch_buf := rest\<rparr>, sink := sink s @ [(FatalLevel, message x)],
                status := Exited\<rparr>)) \<and>
   (ch_buf (queue s) = x # rest \<and> level x = ''panic'' \<longrightarrow>
      processQueue s =
        Some (s\<lparr>queue := (queue s)\<lparr>ch_buf := rest\<rparr>, sink := sink s @ [(PanicLevel, message x)],
                status := Panicked (message x)\<rparr>))"
  by (auto simp: logWrapper_buffering logWrapper_direct LogFatal_def LogPanic_def chosen_levels
        Msg_def Let_def processQueue_Cons)

theorem fatal_and_panic_follow_the_common_route_witness:
  "\<not> queueClosed init \<and> \<not> ch_closed (queue init) \<and>
   logWrapper plain ''fatal'' ''x'' [] init =
     init\<lparr>queue := \<lparr>ch_buf = [\<lparr>level = ''fatal'', message = ''x''\<rparr>], ch_cap = 100, ch_closed = False\<rparr>\<rparr> \<and>
   queueClosed (MarkInitialized plain init) \<and>
   status (LogFatal plain ''x'' [] (MarkInitialized plain init)) = Exited \<and>
   status (LogPanic plain ''x'' [] (MarkInitialized plain init)) = Panicked ''x'' \<and>
   processQueue (MarkInitialized plain (LogFatal plain ''x'' [] init)) =
     Some \<lparr>queue = \<lparr>ch_buf = [], ch_cap = 100, ch_closed = True\<rparr>, queueClosed = True,
            sink = [(InfoLevel, ''Logger initialized''), (FatalLevel, ''x'')],
            drainers = [AtRange], status = Exited\<rparr> \<and>
   processQueue (MarkInitialized plain (LogPanic plain ''x'' [] init)) =
     Some \<lparr>queue = \<lparr>ch_buf = [], ch_cap = 100, ch_closed = True\<rparr>, queueClosed = True,
            sink = [(InfoLevel, ''Logger initialized''), (PanicLevel, ''x'')],
            drainers = [AtRange], status = Panicked ''x''\<rparr>"
proof -
  have 1: "\<not> queueClosed init \<and> \<not> ch_closed (queue init)"
    by (simp add: init_def make_chan_def)
  have 2: "queueClosed (MarkInitialized plain init)"
    by (simp add: run_defs)
  have 3: "ch_buf (queue (MarkInitialized plain (LogFatal plain ''x'' [] init))) =
             \<lparr>level = ''fatal'', message = ''x''\<rparr> # [] \<and>
           level \<lparr>level = ''fatal'', message = ''x''\<rparr> = ''fatal''"
    by (simp add: run_defs)
  have 4: "ch_buf (queue (MarkInitialized plain (LogPanic plain ''x'' [] init))) =
             \<lparr>level = ''panic'', message = ''x''\<rparr> # [] \<and>
           level \<lparr>level = ''panic'', message = ''x''\<rparr> = ''panic''"
    by (simp add: run_defs)
  note a = fatal_and_panic_follow_the_common_route [where s = init and Sprintf = plain and lvl = "''fatal''"
      and format = "''x''" and args = "[]",
      THEN conjunct1, rule_format, OF 1]
  note b = fatal_and_panic_follow_the_common_route [where s = "MarkInitialized plain init" and Sprintf = plain
      and format = "''x''" and args = "[]",
      THEN conjunct2, THEN conjunct1, rule_format, OF 2]
  note c = fatal_and_panic_follow_the_common_route [where s = "MarkInitialized plain (LogFatal plain ''x'' [] init)",
      THEN conjunct2, THEN conjunct2, THEN conjunct1, rule_format, OF 3]
  note d = fatal_and_panic_follow_the_common_route [where s = "MarkInitialized plain (LogPanic plain ''x'' [] init)",
      THEN conjunct2, THEN conjunct2, THEN conjunct2, rule_format, OF 4]
  have e: "MarkInitialized plain (LogFatal plain ''x'' [] init) =
       \<lparr>queue = \<lparr>ch_buf = [\<lparr>level = ''fatal'', message = ''x''\<rparr>], ch_cap = 100, ch_closed = True\<rparr>,
         queueClosed = True, sink = [(InfoLevel, ''Logger initialized'')],
         drainers = [AtRange], status = Running\<rparr>"
    by (simp add: run_defs)
  have f: "MarkInitialized plain (LogPanic plain ''x'' [] init) =
       \<lparr>queue = \<lparr>ch_buf = [\<lparr>level = ''panic'', message = ''x''\<rparr>], ch_cap = 100, ch_closed = True\<rparr>,
         queueClosed = True, sink = [(InfoLevel, ''Logger initialized'')],
         drainers = [AtRange], status = Running\<rparr>"
    by (simp add: run_defs)
  have g: "MarkInitialized plain init =
       \<lparr>queue = \<lparr>ch_buf = [], ch_cap = 100, ch_closed = True\<rparr>,
         queueClosed = True, sink = [(InfoLevel, ''Logger initialized'')],
         drainers = [AtRange], status = Running\<rparr>"
    by (simp add: run_defs)
  show ?thesis
    unfolding e f g
    using 1 a b [unfolded g] c [unfolded e] d [unfolded f]
    by (simp add: init_def make_chan_def plain_def)
qed

text \<open>
  C9 as stated fails: before the transition \<open>LogFatal\<close> returns with the process
  running and nothing written, and on a full channel \<open>LogFatal\<close> and \<open>LogPanic\<close> leave
  the state as it was, so that nothing ever ends the process on their account.
\<close>

theorem buffered_fatal_returns_counterexample:
  "status (LogFatal plain ''x'' [] init) = Running \<and>
   sink (LogFatal plain ''x'' [] init) = [] \<and>
   status (run_calls plain (replicate 100 (Log ''info'' ''m'' [])) init) = Running \<and>
   \<not> queueClosed (run_calls plain (replicate 100 (Log ''info'' ''m'' [])) init) \<and>
   LogFatal plain ''x'' [] (run_calls plain (replicate 100 (Log ''info'' ''m'' [])) init) =
     run_calls plain (replicate 100 (Log ''info'' ''m'' [])) init \<and>
   LogPanic plain ''x'' [] (run_calls plain (replicate 100 (Log ''info'' ''m'' [])) init) =
     run_calls plain (replicate 100 (Log ''info'' ''m'' [])) init"
proof -
  have "replicate 100 (Log ''info'' ''m'' ([] :: unit list)) =
        map log_call (replicate 100 (''info'', ''m'', []))"
    by simp
  then have r: "run_calls plain (replicate 100 (Log ''info'' ''m'' [])) init =
     init\<lparr>queue := \<lparr>ch_buf = take 100 (map (record_of plain) (replicate 100 (''info'', ''m'', []))),
                   ch_cap = 100, ch_closed = False\<rparr>\<rparr>"
    by (simp only: run_calls_init)
  show ?thesis
    unfolding r by (simp add: run_defs)
qed

section \<open>Claims about runs\<close>

text \<open>
  C1, as amended. In every interleaving, from a state with the channel open and no
  goroutine started, the records written so far by the goroutine running
  \<open>processQueue\<close>, followed by the record it holds and by those still buffered, are
  the records buffered at the start followed by those enqueued since, in the order of
  their enqueueing: the backlog reaches the sink in FIFO order, no record twice. The
  writes of that goroutine are a subsequence of all writes, the sink holds exactly the
  writes in their order, and at most one such goroutine is ever started. Nothing
  orders the backlog against the direct writes.
\<close>

theorem backlog_reaches_sink_in_order:
  assumes "drainers s0 = []" and "\<not> ch_closed (queue s0)"
  shows "drained (fst (exec Sprintf sched (start s0 progs))) @
           pending (snd (exec Sprintf sched (start s0 progs))) =
         ch_buf (queue s0) @ enqueued (fst (exec Sprintf sched (start s0 progs))) \<and>
         subseq (drained (fst (exec Sprintf sched (start s0 progs))))
                (written (fst (exec Sprintf sched (start s0 progs)))) \<and>
         sink (shared (snd (exec Sprintf sched (start s0 progs)))) =
           sink s0 @ map entry (written (fst (exec Sprintf sched (start s0 progs)))) \<and>
         length (drainers (shared (snd (exec Sprintf sched (start s0 progs))))) \<le> 1"
proof -
  from fifo_inv_exec [OF assms, of Sprintf sched progs]
  have "length (drainers (shared (snd (exec Sprintf sched (start s0 progs))))) +
          at_go (snd (exec Sprintf sched (start s0 progs))) \<le> 1"
    by (simp add: fifo_inv_def)
  then have "length (drainers (shared (snd (exec Sprintf sched (start s0 progs))))) \<le> 1"
    by simp
  with fifo_inv_exec [OF assms, of Sprintf sched progs]
    subseq_drained_written [of "fst (exec Sprintf sched (start s0 progs))"]
  show ?thesis
    by (simp add: fifo_inv_def)
qed

theorem backlog_reaches_sink_in_order_witness:
  "drainers init = [] \<and> \<not> ch_closed (queue init) \<and>
   enqueued (fst (exec plain (replicate 12 (Caller 0) @ [Drainer 0, Drainer 0, Caller 0, Drainer 0])
      (start init [[Log ''info'' ''a'' [], Log ''warn'' ''b'' [], MarkInit]]))) =
     [\<lparr>level = ''info'', message = ''a''\<rparr>, \<lparr>level = ''warn'', message = ''b''\<rparr>] \<and>
   drained (fst (exec plain (replicate 12 (Caller 0) @ [Drainer 0, Drainer 0, Caller 0, Drainer 0])
      (start init [[Log ''info'' ''a'' [], Log ''warn'' ''b'' [], MarkInit]]))) =
     [\<lparr>level = ''info'', message = ''a''\<rparr>] \<and>
   pending (snd (exec plain (replicate 12 (Caller 0) @ [Drainer 0, Drainer 0, Caller 0, Drainer 0])
      (start init [[Log ''info'' ''a'' [], Log ''warn'' ''b'' [], MarkInit]]))) =
     [\<lparr>level = ''warn'', message = ''b''\<rparr>] \<and>
   sink (shared (snd (exec plain (replicate 12 (Caller 0) @ [Drainer 0, Drainer 0, Caller 0, Drainer 0])
      (start init [[Log ''info'' ''a'' [], Log ''warn'' ''b'' [], MarkInit]])))) =
     [(InfoLevel, ''a''), (InfoLevel, ''Logger initialized'')]"
proof -
  let ?r = "exec plain (replicate 12 (Caller 0) @ [Drainer 0, Drainer 0, Caller 0, Drainer 0])
      (start init [[Log ''info'' ''a'' [], Log ''warn'' ''b'' [], MarkInit]])"
  have h: "drainers init = []" "\<not> ch_closed (queue init)"
    by (simp_all add: init_def make_chan_def)
  have r: "?r =
     ([Formatted (Caller 0) ''info'' ''a'', Loaded (Caller 0) False,
       Enqueued (Caller 0) \<lparr>level = ''info'', message = ''a''\<rparr>,
       Formatted (Caller 0) ''warn'' ''b'', Loaded (Caller 0) False,
       Enqueued (Caller 0) \<lparr>level = ''warn'', message = ''b''\<rparr>,
       Loaded (Caller 0) False, Stored (Caller 0), Closed (Caller 0), Started (Caller 0),
       Formatted (Caller 0) ''info'' ''Logger initialized'', Loaded (Caller 0) True,
       Received (Drainer 0) \<lparr>level = ''info'', message = ''a''\<rparr>,
       Wrote (Drainer 0) \<lparr>level = ''info'', message = ''a''\<rparr>,
       Wrote (Caller 0) \<lparr>level = ''info'', message = ''Logger initialized''\<rparr>,
       Received (Drainer 0) \<lparr>level = ''warn'', message = ''b''\<rparr>],
      \<lparr>shared = \<lparr>queue = \<lparr>ch_buf = [], ch_cap = 100, ch_closed = True\<rparr>, queueClosed = True,
                  sink = [(InfoLevel, ''a''), (InfoLevel, ''Logger initialized'')],
                  drainers = [AtBody \<lparr>level = ''warn'', message = ''b''\<rparr>], status = Running\<rparr>,
        callers = [\<lparr>frame = Ready, todo = []\<rparr>]\<rparr>)"
    by (simp add: step_defs run_defs eval_nat_numeral)
  have e: "enqueued (fst ?r) = [\<lparr>level = ''info'', message = ''a''\<rparr>, \<lparr>level = ''warn'', message = ''b''\<rparr>]"
    unfolding r by (simp add: enqueued_def)
  have p: "pending (snd ?r) = [\<lparr>level = ''warn'', message = ''b''\<rparr>]"
    unfolding r by (simp add: pending_def in_flight_def)
  have k: "sink (shared (snd ?r)) = [(InfoLevel, ''a''), (InfoLevel, ''Logger initialized'')]"
    unfolding r by simp
  from backlog_reaches_sink_in_order [OF h, of plain
      "replicate 12 (Caller 0) @ [Drainer 0, Drainer 0, Caller 0, Drainer 0]"
      "[[Log ''info'' ''a'' [], Log ''warn'' ''b'' [], MarkInit]]"]
  have "drained (fst ?r) @ pending (snd ?r) = ch_buf (queue init) @ enqueued (fst ?r)"
    by blast
  then have d: "drained (fst ?r) = [\<lparr>level = ''info'', message = ''a''\<rparr>]"
    unfolding e p by (simp add: init_def make_chan_def)
  from h e d p k show ?thesis by blast
qed

text \<open>
  C1 as stated fails. One goroutine logs "a", calls \<open>MarkInitialized\<close> and, after it
  has returned, logs "b"; the goroutine started by \<open>MarkInitialized\<close> moves only
  afterwards. The record "a", enqueued before the transition, reaches the sink after
  the direct record "b".
\<close>

theorem direct_record_overtakes_backlog_counterexample:
  "exec plain (replicate 13 (Caller 0) @ replicate 3 (Drainer 0))
        (start init [[Log ''info'' ''a'' [], MarkInit, Log ''info'' ''b'' []]]) =
     ([Formatted (Caller 0) ''info'' ''a'', Loaded (Caller 0) False,
       Enqueued (Caller 0) \<lparr>level = ''info'', message = ''a''\<rparr>,
       Loaded (Caller 0) False, Stored (Caller 0), Closed (Caller 0), Started (Caller 0),
       Formatted (Caller 0) ''info'' ''Logger initialized'', Loaded (Caller 0) True,
       Wrote (Caller 0) \<lparr>level = ''info'', message = ''Logger initialized''\<rparr>,
       Formatted (Caller 0) ''info'' ''b'', Loaded (Caller 0) True,
       Wrote (Caller 0) \<lparr>level = ''info'', message = ''b''\<rparr>,
       Received (Drainer 0) \<lparr>level = ''info'', message = ''a''\<rparr>,
       Wrote (Drainer 0) \<lparr>level = ''info'', message = ''a''\<rparr>,
       Returned (Drainer 0)],
      \<lparr>shared = \<lparr>queue = \<lparr>ch_buf = [], ch_cap = 100, ch_closed = True\<rparr>, queueClosed = True,
                  sink = [(InfoLevel, ''Logger initialized''), (InfoLevel, ''b''), (InfoLevel, ''a'')],
                  drainers = [Finished], status = Running\<rparr>,
        callers = [\<lparr>frame = Ready, todo = []\<rparr>]\<rparr>)"
  by (simp add: step_defs run_defs eval_nat_numeral)

text \<open>
  C2. The claim fails on the code: the load of the flag and the send are two steps.
  A caller of \<open>LogInfo\<close> loads the flag and finds it false; \<open>MarkInitialized\<close>, in
  another goroutine, then stores the flag and closes the channel; the caller then
  sends on the closed channel, which panics.
\<close>

theorem send_on_closed_channel_run:
  "exec plain [Caller 0, Caller 0, Caller 1, Caller 1, Caller 1, Caller 0]
        (start init [[Log ''info'' ''x'' []], [MarkInit]]) =
     ([Formatted (Caller 0) ''info'' ''x'', Loaded (Caller 0) False,
       Loaded (Caller 1) False, Stored (Caller 1), Closed (Caller 1),
       PanickedAt (Caller 0) ''send on closed channel''],
      \<lparr>shared = \<lparr>queue = \<lparr>ch_buf = [], ch_cap = 100, ch_closed = True\<rparr>, queueClosed = True,
                  sink = [], drainers = [], status = Panicked ''send on closed channel''\<rparr>,
        callers = [\<lparr>frame = LW_Send ''info'' ''x'', todo = []\<rparr>, \<lparr>frame = MI_Go, todo = []\<rparr>]\<rparr>)"
  by (simp add: step_defs run_defs)

text \<open>
  C8. The claim fails on the code, by the defect of C2. In the run of C2 the call of
  \<open>LogInfo\<close> has none of the three outcomes: its record is not in the channel, it is
  not in the sink, and the call has not taken the \<open>default\<close> branch of its \<open>select\<close>
  and returned, since the send on the closed channel panics. The caller has had no
  outcome, its one call is still to complete, and with the process brought down it
  never moves again.
\<close>

theorem racing_call_has_no_outcome:
  "let r = exec plain [Caller 0, Caller 0, Caller 1, Caller 1, Caller 1, Caller 0]
             (start init [[Log ''info'' ''x'' []], [MarkInit]])
   in outcomes 0 (fst r) = [] \<and>
      enqueued (fst r) = [] \<and>
      written (fst r) = [] \<and>
      ch_buf (queue (shared (snd r))) = [] \<and>
      sink (shared (snd r)) = [] \<and>
      callers (snd r) ! 0 = \<lparr>frame = LW_Send ''info'' ''x'', todo = []\<rparr> \<and>
      calls_left (callers (snd r) ! 0) = 1 \<and>
      status (shared (snd r)) = Panicked ''send on closed channel'' \<and>
      step plain (Caller 0) (snd r) = None"
proof -
  have r: "exec plain [Caller 0, Caller 0, Caller 1, Caller 1, Caller 1, Caller 0]
        (start init [[Log ''info'' ''x'' []], [MarkInit]]) =
     ([Formatted (Caller 0) ''info'' ''x'', Loaded (Caller 0) False,
       Loaded (Caller 1) False, Stored (Caller 1), Closed (Caller 1),
       PanickedAt (Caller 0) ''send on closed channel''],
      \<lparr>shared = \<lparr>queue = \<lparr>ch_buf = [], ch_cap = 100, ch_closed = True\<rparr>, queueClosed = True,
                  sink = [], drainers = [], status = Panicked ''send on closed channel''\<rparr>,
        callers = [\<lparr>frame = LW_Send ''info'' ''x'', todo = []\<rparr>, \<lparr>frame = MI_Go, todo = []\<rparr>]\<rparr>)"
    by (simp add: step_defs run_defs)
  show ?thesis
    unfolding r Let_def
    by (simp add: outcomes_def enqueued_def written_def calls_left_def step_def)
qed

text \<open>
  C4, as amended. Let \<open>N \<le> 100\<close> calls of \<open>Log*\<close> be made one after the other from the
  initial state, and let then one goroutine call \<open>MarkInitialized\<close> (and whatever it
  calls next). None of the \<open>N\<close> calls fails and all \<open>N\<close> records are buffered in call
  order. In every interleaving with the goroutine started by \<open>MarkInitialized\<close>, the
  records that goroutine has written, the one it holds and those still buffered are
  the \<open>N\<close> records in call order; once it has returned it has written all of them,
  each once, in call order, and its writes are in the sink in that order. If no record
  is at fatal or panic level, it does return when scheduled: after the seven moves of
  \<open>MarkInitialized\<close> and \<open>2N + 1\<close> moves of the goroutine the sink holds
  "Logger initialized" followed by the \<open>N\<close> records, which is also what
  \<open>processQueue\<close> computes after \<open>MarkInitialized\<close>.
\<close>

theorem buffered_records_drained_in_call_order:
  fixes rest :: "'a call list"
  assumes "length recs \<le> 100"
  shows "let s = run_calls Sprintf (map log_call recs) init;
             r = exec Sprintf sched (start s [MarkInit # rest]);
             r' = exec Sprintf (replicate 7 (Caller 0) @ replicate (2 * length recs + 1) (Drainer 0))
                    (start s [MarkInit # rest])
         in status s = Running \<and>
            ch_buf (queue s) = map (record_of Sprintf) recs \<and>
            drained (fst r) @ pending (snd r) = map (record_of Sprintf) recs \<and>
            (Finished \<in> set (drainers (shared (snd r))) \<longrightarrow>
               drained (fst r) = map (record_of Sprintf) recs) \<and>
            subseq (map entry (drained (fst r))) (sink (shared (snd r))) \<and>
            ((\<forall>x\<in>set recs. \<not> ends_process (record_of Sprintf x)) \<longrightarrow>
               drainers (shared (snd r')) = [Finished] \<and> status (shared (snd r')) = Running \<and>
               sink (shared (snd r')) =
                 (InfoLevel, Sprintf ''Logger initialized'' []) # map (entry \<circ> record_of Sprintf) recs \<and>
               processQueue (MarkInitialized Sprintf s) = Some ((shared (snd r'))\<lparr>drainers := [AtRange]\<rparr>))"
  using interleaved_drain [of Sprintf recs sched rest] sequential_drain [of recs Sprintf rest] assms
  by (simp add: Let_def)

theorem buffered_records_drained_in_call_order_witness:
  "length [(''info'', ''a'', [] :: unit list), (''warn'', ''b'', [])] \<le> 100 \<and>
   \<not> ends_process (record_of plain (''info'', ''a'', [])) \<and>
   \<not> ends_process (record_of plain (''warn'', ''b'', [])) \<and>
   Finished \<in> set (drainers (shared (snd (exec plain (replicate 7 (Caller 0) @ replicate 5 (Drainer 0))
      (start (run_calls plain [Log ''info'' ''a'' [], Log ''warn'' ''b'' []] init) [[MarkInit]]))))) \<and>
   drained (fst (exec plain (replicate 7 (Caller 0) @ replicate 5 (Drainer 0))
      (start (run_calls plain [Log ''info'' ''a'' [], Log ''warn'' ''b'' []] init) [[MarkInit]]))) =
     [\<lparr>level = ''info'', message = ''a''\<rparr>, \<lparr>level = ''warn'', message = ''b''\<rparr>] \<and>
   sink (shared (snd (exec plain (replicate 7 (Caller 0) @ replicate 5 (Drainer 0))
      (start (run_calls plain [Log ''info'' ''a'' [], Log ''warn'' ''b'' []] init) [[MarkInit]])))) =
     [(InfoLevel, ''Logger initialized''), (InfoLevel, ''a''), (WarnLevel, ''b'')]"
proof -
  let ?recs = "[(''info'', ''a'', [] :: unit list), (''warn'', ''b'', [])]"
  have h: "length ?recs \<le> 100" by simp
  have n: "\<not> ends_process (record_of plain (''info'', ''a'', []))"
          "\<not> ends_process (record_of plain (''warn'', ''b'', []))"
    by (simp_all add: ends_process_def chosen_levels)
  then have a: "\<forall>x\<in>set ?recs. \<not> ends_process (record_of plain x)" by simp
  note t = buffered_records_drained_in_call_order [OF h, of plain
      "replicate 7 (Caller 0) @ replicate 5 (Drainer 0)" "[]", unfolded Let_def]
  have five: "replicate (2 * length ?recs + 1) (Drainer 0) = replicate 5 (Drainer 0)" by simp
  from t a have 1: "drainers (shared (snd (exec plain (replicate 7 (Caller 0) @ replicate 5 (Drainer 0))
      (start (run_calls plain (map log_call ?recs) init) [[MarkInit]])))) = [Finished]"
    and 2: "sink (shared (snd (exec plain (replicate 7 (Caller 0) @ replicate 5 (Drainer 0))
      (start (run_calls plain (map log_call ?recs) init) [[MarkInit]])))) =
        (InfoLevel, plain ''Logger initialized'' []) # map (entry \<circ> record_of plain) ?recs"
    unfolding five by blast+
  from t 1 have 3: "drained (fst (exec plain (replicate 7 (Caller 0) @ replicate 5 (Drainer 0))
      (start (run_calls plain (map log_call ?recs) init) [[MarkInit]]))) = map (record_of plain) ?recs"
    by simp
  have m: "map log_call ?recs = [Log ''info'' ''a'' [], Log ''warn'' ''b'' []]" by simp
  from h n 1 2 3 show ?thesis
    unfolding m by (simp add: plain_def entry_def chosen_levels)
qed

text \<open>
  C4 as stated fails. When \<open>MarkInitialized\<close> has returned, a buffered record is
  still in the channel and not in the sink. And a buffered fatal record ends the
  process when it is written: the record behind it never reaches the sink.
\<close>

theorem buffered_records_drained_in_call_order_counterexample:
  "sink (MarkInitialized plain (run_calls plain [Log ''info'' ''a'' []] init)) =
     [(InfoLevel, ''Logger initialized'')] \<and>
   processQueue (MarkInitialized plain
       (run_calls plain [Log ''fatal'' ''a'' [], Log ''info'' ''b'' []] init)) =
     Some \<lparr>queue = \<lparr>ch_buf = [\<lparr>level = ''info'', message = ''b''\<rparr>], ch_cap = 100, ch_closed = True\<rparr>,
            queueClosed = True, sink = [(InfoLevel, ''Logger initialized''), (FatalLevel, ''a'')],
            drainers = [AtRange], status = Exited\<rparr> \<and>
   snd (exec plain (replicate 7 (Caller 0) @ replicate 5 (Drainer 0))
      (start (run_calls plain [Log ''fatal'' ''a'' [], Log ''info'' ''b'' []] init) [[MarkInit]])) =
     \<lparr>shared = \<lparr>queue = \<lparr>ch_buf = [\<lparr>level = ''info'', message = ''b''\<rparr>], ch_cap = 100,
                          ch_closed = True\<rparr>,
                 queueClosed = True, sink = [(InfoLevel, ''Logger initialized''), (FatalLevel, ''a'')],
                 drainers = [AtRange], status = Exited\<rparr>,
       callers = [\<lparr>frame = Ready, todo = []\<rparr>]\<rparr>"
proof -
  have 1: "sink (MarkInitialized plain (run_calls plain [Log ''info'' ''a'' []] init)) =
     [(InfoLevel, ''Logger initialized'')]"
    by (simp add: run_defs)
  have s: "MarkInitialized plain (run_calls plain [Log ''fatal'' ''a'' [], Log ''info'' ''b'' []] init) =
     \<lparr>queue = \<lparr>ch_buf = [\<lparr>level = ''fatal'', message = ''a''\<rparr>, \<lparr>level = ''info'', message = ''b''\<rparr>],
               ch_cap = 100, ch_closed = True\<rparr>,
       queueClosed = True, sink = [(InfoLevel, ''Logger initialized'')],
       drainers = [AtRange], status = Running\<rparr>"
    by (simp add: run_defs)
  have 2: "processQueue (MarkInitialized plain
       (run_calls plain [Log ''fatal'' ''a'' [], Log ''info'' ''b'' []] init)) =
     Some \<lparr>queue = \<lparr>ch_buf = [\<lparr>level = ''info'', message = ''b''\<rparr>], ch_cap = 100, ch_closed = True\<rparr>,
            queueClosed = True, sink = [(InfoLevel, ''Logger initialized''), (FatalLevel, ''a'')],
            drainers = [AtRange], status = Exited\<rparr>"
    unfolding s by (simp add: processQueue_Cons chosen_levels Msg_def Let_def)
  have 3: "snd (exec plain (replicate 7 (Caller 0) @ replicate 5 (Drainer 0))
      (start (run_calls plain [Log ''fatal'' ''a'' [], Log ''info'' ''b'' []] init) [[MarkInit]])) =
     \<lparr>shared = \<lparr>queue = \<lparr>ch_buf = [\<lparr>level = ''info'', message = ''b''\<rparr>], ch_cap = 100,
                          ch_closed = True\<rparr>,
                 queueClosed = True, sink = [(InfoLevel, ''Logger initialized''), (FatalLevel, ''a'')],
                 drainers = [AtRange], status = Exited\<rparr>,
       callers = [\<lparr>frame = Ready, todo = []\<rparr>]\<rparr>"
    by (simp add: step_defs run_defs eval_nat_numeral)
  from 1 2 3 show ?thesis by blast
qed

text \<open>
  C5, as amended. Let \<open>N > 100\<close> calls of \<open>Log*\<close> be made one after the other from the
  initial state. None fails, the calls after the hundredth leave the state as it was,
  and the channel holds the first hundred records in call order. In every interleaving
  that follows a call of \<open>MarkInitialized\<close>, the goroutine it starts writes those
  hundred records and no others, in call order, all of them once it has returned. If
  none of the first hundred is at fatal or panic level it does return when scheduled,
  and the sink then holds "Logger initialized" followed by the first hundred records.
\<close>

theorem overflow_drops_the_newest:
  fixes rest :: "'a call list"
  assumes "100 < length recs"
  shows "let s = run_calls Sprintf (map log_call recs) init;
             r = exec Sprintf sched (start s [MarkInit # rest]);
             r' = exec Sprintf (replicate 7 (Caller 0) @ replicate 201 (Drainer 0))
                    (start s [MarkInit # rest])
         in status s = Running \<and>
            s = run_calls Sprintf (map log_call (take 100 recs)) init \<and>
            ch_buf (queue s) = map (record_of Sprintf) (take 100 recs) \<and>
            drained (fst r) @ pending (snd r) = map (record_of Sprintf) (take 100 recs) \<and>
            (Finished \<in> set (drainers (shared (snd r))) \<longrightarrow>
               drained (fst r) = map (record_of Sprintf) (take 100 recs)) \<and>
            subseq (map entry (drained (fst r))) (sink (shared (snd r))) \<and>
            ((\<forall>x\<in>set (take 100 recs). \<not> ends_process (record_of Sprintf x)) \<longrightarrow>
               drainers (shared (snd r')) = [Finished] \<and> status (shared (snd r')) = Running \<and>
               sink (shared (snd r')) =
                 (InfoLevel, Sprintf ''Logger initialized'' []) #
                   map (entry \<circ> record_of Sprintf) (take 100 recs) \<and>
               processQueue (MarkInitialized Sprintf s) = Some ((shared (snd r'))\<lparr>drainers := [AtRange]\<rparr>))"
proof -
  have same: "run_calls Sprintf (map log_call recs) init =
              run_calls Sprintf (map log_call (take 100 recs)) init"
    by (simp add: run_calls_init take_map)
  have n: "2 * length (take 100 recs) + 1 = 201"
    using assms by simp
  show ?thesis
    using interleaved_drain [of Sprintf recs sched rest]
      sequential_drain [of recs Sprintf rest, unfolded n] same
    by (simp add: Let_def)
qed

theorem overflow_drops_the_newest_witness:
  "100 < length (replicate 100 (''info'', ''a'', [] :: unit list) @ [(''warn'', ''late'', [])]) \<and>
   \<not> ends_process (record_of plain (''info'', ''a'', [])) \<and>
   run_calls plain (replicate 100 (Log ''info'' ''a'' []) @ [Log ''warn'' ''late'' []]) init =
     run_calls plain (replicate 100 (Log ''info'' ''a'' [])) init \<and>
   status (run_calls plain (replicate 100 (Log ''info'' ''a'' []) @ [Log ''warn'' ''late'' []]) init) =
     Running \<and>
   Finished \<in> set (drainers (shared (snd (exec plain (replicate 7 (Caller 0) @ replicate 201 (Drainer 0))
      (start (run_calls plain (replicate 100 (Log ''info'' ''a'' []) @ [Log ''warn'' ''late'' []]) init)
         [[MarkInit]]))))) \<and>
   drained (fst (exec plain (replicate 7 (Caller 0) @ replicate 201 (Drainer 0))
      (start (run_calls plain (replicate 100 (Log ''info'' ''a'' []) @ [Log ''warn'' ''late'' []]) init)
         [[MarkInit]]))) =
     replicate 100 \<lparr>level = ''info'', message = ''a''\<rparr> \<and>
   sink (shared (snd (exec plain (replicate 7 (Caller 0) @ replicate 201 (Drainer 0))
      (start (run_calls plain (replicate 100 (Log ''info'' ''a'' []) @ [Log ''warn'' ''late'' []]) init)
         [[MarkInit]])))) =
     (InfoLevel, ''Logger initialized'') # replicate 100 (InfoLevel, ''a'')"
proof -
  let ?recs = "replicate 100 (''info'', ''a'', [] :: unit list) @ [(''warn'', ''late'', [])]"
  let ?calls = "replicate 100 (Log ''info'' ''a'' ([] :: unit list)) @ [Log ''warn'' ''late'' []]"
  have h: "100 < length ?recs" by simp
  have n: "\<not> ends_process (record_of plain (''info'', ''a'', []))"
    by (simp add: ends_process_def chosen_levels)
  have tk: "take 100 ?recs = replicate 100 (''info'', ''a'', [])" by simp
  from n have a: "\<forall>x\<in>set (take 100 ?recs). \<not> ends_process (record_of plain x)"
    unfolding tk by simp
  have m: "map log_call ?recs = ?calls" "map log_call (take 100 ?recs) = replicate 100 (Log ''info'' ''a'' [])"
    unfolding tk by simp_all
  note t = overflow_drops_the_newest [OF h, of plain
      "replicate 7 (Caller 0) @ replicate 201 (Drainer 0)" "[]", unfolded Let_def m]
  from t have 0: "status (run_calls plain ?calls init) = Running"
    and 1: "run_calls plain ?calls init = run_calls plain (replicate 100 (Log ''info'' ''a'' [])) init"
    by blast+
  from t a have 2: "drainers (shared (snd (exec plain (replicate 7 (Caller 0) @ replicate 201 (Drainer 0))
      (start (run_calls plain ?calls init) [[MarkInit]])))) = [Finished]"
    and 3: "sink (shared (snd (exec plain (replicate 7 (Caller 0) @ replicate 201 (Drainer 0))
      (start (run_calls plain ?calls init) [[MarkInit]])))) =
        (InfoLevel, plain ''Logger initialized'' []) # map (entry \<circ> record_of plain) (take 100 ?recs)"
    by blast+
  have f: "Finished \<in> set (drainers (shared (snd (exec plain (replicate 7 (Caller 0) @ replicate 201 (Drainer 0))
      (start (run_calls plain ?calls init) [[MarkInit]])))))"
    unfolding 2 by simp
  from t f have 4: "drained (fst (exec plain (replicate 7 (Caller 0) @ replicate 201 (Drainer 0))
      (start (run_calls plain ?calls init) [[MarkInit]]))) = map (record_of plain) (take 100 ?recs)"
    by blast
  have e: "map (entry \<circ> record_of plain) (take 100 ?recs) = replicate 100 (InfoLevel, ''a'')"
          "map (record_of plain) (take 100 ?recs) = replicate 100 \<lparr>level = ''info'', message = ''a''\<rparr>"
    unfolding tk by (simp_all add: entry_def chosen_levels plain_def)
  from h n 0 1 f 3 4 show ?thesis
    unfolding e by (simp add: plain_def)
qed

text \<open>
  C5 as stated fails. With a fatal record first among 101 calls, the goroutine writes
  that record and the process exits: of the hundred records buffered, 99 never reach
  the sink.
\<close>

theorem overflow_drops_the_newest_counterexample:
  "processQueue (MarkInitialized plain
       (run_calls plain (Log ''fatal'' ''a'' [] # replicate 100 (Log ''info'' ''b'' [])) init)) =
     Some \<lparr>queue = \<lparr>ch_buf = replicate 99 \<lparr>level = ''info'', message = ''b''\<rparr>, ch_cap = 100,
                     ch_closed = True\<rparr>,
            queueClosed = True, sink = [(InfoLevel, ''Logger initialized''), (FatalLevel, ''a'')],
            drainers = [AtRange], status = Exited\<rparr>"
proof -
  let ?recs = "(''fatal'', ''a'', [] :: unit list) # replicate 100 (''info'', ''b'', [])"
  have m: "Log ''fatal'' ''a'' [] # replicate 100 (Log ''info'' ''b'' ([] :: unit list)) = map log_call ?recs"
    by simp
  have s: "run_calls plain (map log_call ?recs) init =
     init\<lparr>queue := \<lparr>ch_buf = take 100 (map (record_of plain) ?recs), ch_cap = 100, ch_closed = False\<rparr>\<rparr>"
    by (rule run_calls_init)
  have tk: "take 100 (map (record_of plain) ?recs) =
      [] @ \<lparr>level = ''fatal'', message = ''a''\<rparr> # replicate 99 \<lparr>level = ''info'', message = ''b''\<rparr>"
    by (simp add: plain_def)
  let ?s = "run_calls plain (map log_call ?recs) init"
  have pre: "\<not> queueClosed ?s" "\<not> ch_closed (queue ?s)" "status ?s = Running"
    unfolding s by (simp_all add: init_def)
  have buf: "ch_buf (queue ?s) =
      [] @ \<lparr>level = ''fatal'', message = ''a''\<rparr> # replicate 99 \<lparr>level = ''info'', message = ''b''\<rparr>"
    unfolding s tk by simp
  have x: "ends_process \<lparr>level = ''fatal'', message = ''a''\<rparr>"
    by (simp add: ends_process_def chosen_levels)
  from drain_after_init(2) [OF pre buf _ x, of plain] show ?thesis
    unfolding m unfolding s by (simp add: Msg_def Let_def chosen_levels init_def plain_def)
qed

text \<open>
  C6. Along every run the flag, once set, stays set, and the channel, once closed,
  stays closed, whatever moves follow. The channel is closed successfully exactly once
  in a run that takes it from open to closed and never otherwise. The same holds of
  whole calls: no \<open>Log*\<close> call and no \<open>MarkInitialized\<close> unsets the flag or reopens the
  channel.
\<close>

theorem lifecycle_changes_once:
  "(queueClosed (shared (snd (exec Sprintf s1 c))) \<longrightarrow>
      queueClosed (shared (snd (exec Sprintf (s1 @ s2) c)))) \<and>
   (ch_closed (queue (shared (snd (exec Sprintf s1 c)))) \<longrightarrow>
      ch_closed (queue (shared (snd (exec Sprintf (s1 @ s2) c))))) \<and>
   length (closes (fst (exec Sprintf s1 c))) =
     (if ch_closed (queue (shared (snd (exec Sprintf s1 c)))) \<and> \<not> ch_closed (queue (shared c))
      then 1 else 0) \<and>
   (queueClosed s \<longrightarrow> queueClosed (do_call Sprintf k s)) \<and>
   (ch_closed (queue s) \<longrightarrow> ch_closed (queue (do_call Sprintf k s)))"
  using flags_inv_exec [of "snd (exec Sprintf s1 c)" Sprintf s2] flags_inv_exec [of c Sprintf s1]
    do_call_flags [of s Sprintf k]
  by (simp add: exec_append flags_inv_def)

theorem lifecycle_changes_once_witness:
  "queueClosed (shared (snd (exec plain [Caller 0, Caller 0] (start init [[MarkInit, MarkInit]])))) \<and>
   queueClosed (shared (snd (exec plain ([Caller 0, Caller 0] @ replicate 10 (Caller 0))
      (start init [[MarkInit, MarkInit]])))) \<and>
   ch_closed (queue (shared (snd (exec plain (replicate 3 (Caller 0)) (start init [[MarkInit, MarkInit]]))))) \<and>
   ch_closed (queue (shared (snd (exec plain (replicate 3 (Caller 0) @ replicate 9 (Caller 0))
      (start init [[MarkInit, MarkInit]]))))) \<and>
   \<not> ch_closed (queue (shared (start init [[MarkInit, MarkInit :: unit call]]))) \<and>
   length (closes (fst (exec plain (replicate 3 (Caller 0)) (start init [[MarkInit, MarkInit]])))) = 1 \<and>
   queueClosed (MarkInitialized plain init) \<and>
   queueClosed (do_call plain MarkInit (MarkInitialized plain init)) \<and>
   ch_closed (queue (do_call plain (Log ''info'' ''a'' []) (MarkInitialized plain init)))"
proof -
  let ?c = "start init [[MarkInit, MarkInit :: unit call]]"
  have 1: "queueClosed (shared (snd (exec plain [Caller 0, Caller 0] ?c)))"
    by (simp add: step_defs run_defs)
  have 2: "ch_closed (queue (shared (snd (exec plain (replicate 3 (Caller 0)) ?c))))"
    by (simp add: step_defs run_defs eval_nat_numeral)
  have 3: "\<not> ch_closed (queue (shared ?c))"
    by (simp add: start_def init_def make_chan_def)
  have 4: "queueClosed (MarkInitialized plain init)" "ch_closed (queue (MarkInitialized plain init))"
    by (simp_all add: run_defs)
  note a = lifecycle_changes_once [where Sprintf = plain and c = ?c and ?s1.0 = "[Caller 0, Caller 0]"
      and ?s2.0 = "replicate 10 (Caller 0)", THEN conjunct1, rule_format, OF 1]
  note b = lifecycle_changes_once [where Sprintf = plain and c = ?c and ?s1.0 = "replicate 3 (Caller 0)"
      and ?s2.0 = "replicate 9 (Caller 0)", THEN conjunct2, THEN conjunct1, rule_format, OF 2]
  note c = lifecycle_changes_once [where Sprintf = plain and c = ?c and ?s1.0 = "replicate 3 (Caller 0)",
      THEN conjunct2, THEN conjunct2, THEN conjunct1]
  note d = lifecycle_changes_once [where Sprintf = plain and s = "MarkInitialized plain init" and k = MarkInit,
      THEN conjunct2, THEN conjunct2, THEN conjunct2, THEN conjunct1, rule_format, OF 4(1)]
  note e = lifecycle_changes_once [where Sprintf = plain and s = "MarkInitialized plain init"
      and k = "Log ''info'' ''a'' []",
      THEN conjunct2, THEN conjunct2, THEN conjunct2, THEN conjunct2, rule_format, OF 4(2)]
  from c 2 3 have c': "length (closes (fst (exec plain (replicate 3 (Caller 0)) ?c))) = 1"
    by simp
  from 1 a 2 b 3 c' 4(1) d e show ?thesis by blast
qed

end
